theory Spec2Isabelle
  imports Main "HOL-Library.Word"
begin

section \<open>seqgen3.c: the shared variables\<close>

text \<open>
  The model follows \<^verbatim>\<open>seqgen3.c\<close>. The three services are the cases of a datatype;
  the variables \<^verbatim>\<open>semS1\<close>, \<^verbatim>\<open>semS2\<close>, \<^verbatim>\<open>semS3\<close> are the field \<open>semS\<close> read at
  \<open>S1\<close>, \<open>S2\<close>, \<open>S3\<close>, and likewise \<^verbatim>\<open>abortS1\<close>, \<^verbatim>\<open>abortS2\<close>, \<^verbatim>\<open>abortS3\<close>.
  \<^verbatim>\<open>unsigned long long\<close> is a 64-bit word, \<^verbatim>\<open>int\<close> flags are integers
  tested against zero as C does.
\<close>

type_synonym ull = "64 word"

datatype service = S1 | S2 | S3

definition TRUE :: int where "TRUE = 1"
definition FALSE :: int where "FALSE = 0"
definition NUM_CPU_CORES :: nat where "NUM_CPU_CORES = 4"
definition NUM_THREADS :: nat where "NUM_THREADS = 3"
definition LCM_PERIOD :: ull where "LCM_PERIOD = 30"

record timespec =
  tv_sec :: int
  tv_nsec :: int

record itimerspec =
  it_interval :: timespec
  it_value :: timespec

text \<open>
  \<open>timer_1\<close> is the POSIX timer behind the identifier of that name: \<open>None\<close> while no timer
  has been created, otherwise the setting last programmed into it. \<^verbatim>\<open>last_itime\<close> only
  receives the remaining time of the old setting and is never read; it is left out.
\<close>

record globals =
  abortTest :: int
  abortS :: "service \<Rightarrow> int"
  semS :: "service \<Rightarrow> nat"
  sequencePeriods :: ull
  timer_1 :: "itimerspec option"
  itime :: itimerspec
  seqCnt :: ull

text \<open>
  What \<^verbatim>\<open>sem_wait\<close> can return: 0 after taking a token, or -1 with \<^verbatim>\<open>EINTR\<close> when a
  signal handler installed without \<^verbatim>\<open>SA_RESTART\<close> interrupted the blocked call. The
  program installs no such handler (see the section on Sequencer and services together),
  so its services only ever see the first.
\<close>

datatype wait_result = Acquired | Interrupted

text \<open>
  The line a service hands to \<^verbatim>\<open>syslogPrint\<close>: the number of the thread and its count of
  releases. The time and the core printed with them are readings of the clock and of the
  scheduler, which are not modelled.
\<close>

record event =
  ev_thread :: nat
  ev_count :: ull

text \<open>
  The library and system calls a thread makes, in the order it makes them. A \<^verbatim>\<open>printf\<close>
  is its format, without the newline that ends it, and its integer arguments.
\<close>

datatype call =
    System string
  | Printf string "int list"
  | Perror string
  | Exit int
  | Sem_init service
  | Sched_setscheduler int
  | Pthread_attr_setaffinity_np nat "nat set"
  | Pthread_attr_setschedparam nat int
  | Pthread_create nat service
  | Timer_create
  | Signal_SIGALRM
  | Timer_settime itimerspec
  | Pthread_join nat
  | Sem_post service
  | Sem_wait service wait_result
  | SyslogPrint_DATA event
  | Pthread_exit

fun is_Timer_settime :: "call \<Rightarrow> bool" where
  "is_Timer_settime (Timer_settime t) = True"
| "is_Timer_settime c = False"

subsection \<open>Semaphores and the interval timer\<close>

text \<open>
  \<^verbatim>\<open>sem_post\<close> adds one token unless the semaphore already holds \<^verbatim>\<open>SEM_VALUE_MAX\<close>
  tokens; then it fails with \<^verbatim>\<open>EOVERFLOW\<close> and leaves the value as it is. The program
  never looks at its result.
\<close>

definition SEM_VALUE_MAX :: nat where "SEM_VALUE_MAX = 2147483647"

definition posted :: "nat \<Rightarrow> nat" where
  "posted v = (if v < SEM_VALUE_MAX then v + 1 else v)"

definition sem_post :: "service \<Rightarrow> call list \<times> globals \<Rightarrow> call list \<times> globals" where
  "sem_post x r =
     (fst r @ [Sem_post x], (snd r)\<lparr>semS := (semS (snd r))(x := posted (semS (snd r) x))\<rparr>)"

definition zero_timespec :: timespec where
  "zero_timespec = \<lparr>tv_sec = 0, tv_nsec = 0\<rparr>"

definition zero_itimerspec :: itimerspec where
  "zero_itimerspec = \<lparr>it_interval = zero_timespec, it_value = zero_timespec\<rparr>"

text \<open>
  \<^verbatim>\<open>timer_settime(timer_1, flags, &itime, &last_itime)\<close> programs the timer with the
  current content of \<^verbatim>\<open>itime\<close>; on a timer that was never created it fails and changes
  nothing. A timer whose \<^verbatim>\<open>it_value\<close> is zero is disarmed and delivers no further signal.
\<close>

definition timer_settime :: "call list \<times> globals \<Rightarrow> call list \<times> globals" where
  "timer_settime r =
     (fst r @ [Timer_settime (itime (snd r))],
      (case timer_1 (snd r) of
         None \<Rightarrow> snd r
       | Some old \<Rightarrow> (snd r)\<lparr>timer_1 := Some (itime (snd r))\<rparr>))"

definition armed :: "globals \<Rightarrow> bool" where
  "armed g = (case timer_1 g of None \<Rightarrow> False | Some t \<Rightarrow> it_value t \<noteq> zero_timespec)"

section \<open>The Sequencer\<close>

text \<open>Lines 471 to 477: the three releases, each tested on the current \<^verbatim>\<open>seqCnt\<close>.\<close>

definition release :: "globals \<Rightarrow> call list \<times> globals" where
  "release g =
     (let r1 = (if seqCnt g mod 2 = 0 then sem_post S1 ([], g) else ([], g));
          r2 = (if seqCnt (snd r1) mod 10 = 0 then sem_post S2 r1 else r1);
          r3 = (if seqCnt (snd r2) mod 15 = 0 then sem_post S3 r2 else r2)
      in r3)"

text \<open>Lines 487 to 498: the body of the final \<^verbatim>\<open>if\<close>.\<close>

definition shutdown :: "call list \<times> globals \<Rightarrow> call list \<times> globals" where
  "shutdown r =
     (let g1 = (snd r)\<lparr>itime := zero_itimerspec\<rparr>;
          r2 = timer_settime (fst r, g1);
          r3 = (fst r2 @ [Printf ''Disabling sequencer interval timer with abort=%d and %llu of %d''
                            [abortTest (snd r2), uint (seqCnt (snd r2)), uint (sequencePeriods (snd r2))]],
                snd r2);
          r4 = sem_post S3 (sem_post S2 (sem_post S1 r3))
      in (fst r4, (snd r4)\<lparr>abortS := (\<lambda>x. TRUE)\<rparr>))"

definition Sequencer :: "globals \<Rightarrow> call list \<times> globals" where
  "Sequencer g =
     (let r = release g;
          r' = (fst r, (snd r)\<lparr>seqCnt := seqCnt (snd r) + 1\<rparr>)
      in if abortTest (snd r') \<noteq> 0 \<or> seqCnt (snd r') \<ge> sequencePeriods (snd r')
         then shutdown r' else r')"


section \<open>main: one-time setup\<close>

text \<open>
  What the system calls of \<^verbatim>\<open>main\<close> return is the environment of the model. Clock
  readings, which \<^verbatim>\<open>main\<close> only prints, are not modelled; a \<^verbatim>\<open>printf\<close> of them is
  recorded without arguments.
\<close>

definition SCHED_OTHER :: int where "SCHED_OTHER = 0"
definition SCHED_FIFO :: int where "SCHED_FIFO = 1"
definition SCHED_RR :: int where "SCHED_RR = 2"
definition PTHREAD_SCOPE_SYSTEM :: int where "PTHREAD_SCOPE_SYSTEM = 0"
definition PTHREAD_SCOPE_PROCESS :: int where "PTHREAD_SCOPE_PROCESS = 1"

record env =
  nprocs_conf :: int
  nprocs :: int
  sem_init_rc :: "service \<Rightarrow> int"
  sched_get_priority_max_rc :: int
  sched_get_priority_min_rc :: int
  sched_setscheduler_rc :: int
  sched_getscheduler_rc :: int
  getscope :: int
  pthread_create_rc :: "nat \<Rightarrow> int"
  timer_create_rc :: int

text \<open>
  A thread attribute object. \<open>affinity = None\<close> is an attribute without a CPU set: a thread
  created from it inherits the mask of its creator.
\<close>

record pthread_attr =
  explicit_sched :: bool
  schedpolicy :: int
  affinity :: "nat set option"
  schedparam :: int

definition pthread_attr_init :: pthread_attr where
  "pthread_attr_init =
     \<lparr>explicit_sched = False, schedpolicy = SCHED_OTHER, affinity = None, schedparam = 0\<rparr>"

text \<open>
  The variables of \<^verbatim>\<open>main\<close> next to the globals. \<open>threads ! i\<close> is the entry point of
  the thread that \<^verbatim>\<open>pthread_create\<close> started for \<^verbatim>\<open>threads[i]\<close>, if it started one.
  The arrays have \<^verbatim>\<open>NUM_THREADS\<close> entries and are only indexed below that. In C the
  locals start uninitialised; \<^verbatim>\<open>main\<close> writes each of them before it reads it, so
  the values \<open>init_main\<close> gives them are never seen.
\<close>

record main_state =
  glob :: globals
  allcpuset :: "nat set"
  threadcpu :: "nat set"
  cpuidx :: nat
  rt_max_prio :: int
  rt_min_prio :: int
  main_param :: int
  rt_param :: "int list"
  rt_sched_attr :: "pthread_attr list"
  threadParams :: "nat list"
  threads :: "service option list"

type_synonym result = "call list \<times> (int + main_state)"

text \<open>Statements in sequence; \<^verbatim>\<open>exit\<close> ends the program with its status.\<close>

fun run_steps :: "(main_state \<Rightarrow> result) list \<Rightarrow> main_state \<Rightarrow> result" where
  "run_steps [] s = ([], Inr s)"
| "run_steps (f # fs) s =
     (case f s of
        (cs, Inl status) \<Rightarrow> (cs, Inl status)
      | (cs, Inr s') \<Rightarrow> (let r = run_steps fs s' in (cs @ fst r, snd r)))"

text \<open>The static initialisers of the file.\<close>

definition init_globals :: globals where
  "init_globals =
     \<lparr>abortTest = FALSE, abortS = (\<lambda>x. FALSE), semS = (\<lambda>x. 0), sequencePeriods = 0,
      timer_1 = None,
      itime = \<lparr>it_interval = \<lparr>tv_sec = 1, tv_nsec = 0\<rparr>, it_value = \<lparr>tv_sec = 1, tv_nsec = 0\<rparr>\<rparr>,
      seqCnt = 0\<rparr>"

definition init_main :: main_state where
  "init_main =
     \<lparr>glob = init_globals, allcpuset = {}, threadcpu = {}, cpuidx = 0, rt_max_prio = 0,
      rt_min_prio = 0, main_param = 0, rt_param = replicate NUM_THREADS 0,
      rt_sched_attr = replicate NUM_THREADS pthread_attr_init,
      threadParams = replicate NUM_THREADS 0, threads = replicate NUM_THREADS None\<rparr>"

text \<open>Lines 280 to 303.\<close>

definition startup :: "env \<Rightarrow> main_state \<Rightarrow> result" where
  "startup e s =
     (let cpus = fold (\<lambda>i cs. insert i cs) [0..<NUM_CPU_CORES] {}
      in ([System ''echo > /dev/null | sudo tee /var/log/syslog'',
           System ''uname -a'',
           Printf ''Starting High Rate Sequencer Demo'' [],
           Printf ''START High Rate Sequencer @ sec=%6.9lf with resolution %6.9lf'' [],
           Printf ''System has %d processors configured and %d available.''
             [nprocs_conf e, nprocs e],
           Printf ''Using CPUS=%d from total available.'' [int (card cpus)]],
          Inr (s\<lparr>allcpuset := cpus\<rparr>)))"

text \<open>Lines 308 to 310, one semaphore each.\<close>

definition failed_to_initialize :: "service \<Rightarrow> string" where
  "failed_to_initialize x =
     (case x of S1 \<Rightarrow> ''Failed to initialize S1 semaphore''
      | S2 \<Rightarrow> ''Failed to initialize S2 semaphore''
      | S3 \<Rightarrow> ''Failed to initialize S3 semaphore'')"

definition sem_init :: "env \<Rightarrow> service \<Rightarrow> main_state \<Rightarrow> result" where
  "sem_init e x s =
     (if sem_init_rc e x \<noteq> 0
      then ([Sem_init x, Printf (failed_to_initialize x) [], Exit (- 1)], Inl (- 1))
      else ([Sem_init x], Inr (s\<lparr>glob := (glob s)\<lparr>semS := (semS (glob s))(x := 0)\<rparr>\<rparr>)))"

text \<open>\<^verbatim>\<open>print_scheduler\<close>, lines 649 to 679.\<close>

definition print_scheduler :: "env \<Rightarrow> main_state \<Rightarrow> result" where
  "print_scheduler e s =
     (let schedType = sched_getscheduler_rc e
      in if schedType = SCHED_FIFO then ([Printf ''Pthread Policy is SCHED_FIFO'' []], Inr s)
         else if schedType = SCHED_OTHER
           then ([Printf ''Pthread Policy is SCHED_OTHER'' [], Exit (- 1)], Inl (- 1))
         else if schedType = SCHED_RR
           then ([Printf ''Pthread Policy is SCHED_RR'' [], Exit (- 1)], Inl (- 1))
         else ([Printf ''Pthread Policy is UNKNOWN'' [], Exit (- 1)], Inl (- 1)))"

text \<open>Lines 314 to 321: the priority of the calling thread, in which the Sequencer runs.\<close>

definition main_scheduler :: "env \<Rightarrow> main_state \<Rightarrow> result" where
  "main_scheduler e s =
     (let s1 = s\<lparr>rt_max_prio := sched_get_priority_max_rc e,
                 rt_min_prio := sched_get_priority_min_rc e\<rparr>;
          s2 = s1\<lparr>main_param := rt_max_prio s1\<rparr>;
          rc = sched_setscheduler_rc e
      in ([Sched_setscheduler (main_param s2)] @ (if rc < 0 then [Perror ''main_param''] else []),
          Inr s2))"

text \<open>Lines 324 to 334.\<close>

definition print_scope :: "env \<Rightarrow> main_state \<Rightarrow> result" where
  "print_scope e s =
     ([if getscope e = PTHREAD_SCOPE_SYSTEM then Printf ''PTHREAD SCOPE SYSTEM'' []
       else if getscope e = PTHREAD_SCOPE_PROCESS then Printf ''PTHREAD SCOPE PROCESS'' []
       else Printf ''PTHREAD SCOPE UNKNOWN'' [],
       Printf ''rt_max_prio=%d'' [rt_max_prio s],
       Printf ''rt_min_prio=%d'' [rt_min_prio s]],
      Inr s)"

text \<open>Lines 337 to 365: the body of the loop over the thread index \<open>i\<close>.\<close>

definition setup_attr :: "nat \<Rightarrow> main_state \<Rightarrow> result" where
  "setup_attr i s =
     (let s1 = (if i mod 2 = 0
                then (s\<lparr>threadcpu := {}, cpuidx := 2\<rparr>)\<lparr>threadcpu := insert 2 {}\<rparr>
                else (s\<lparr>threadcpu := {}, cpuidx := 3\<rparr>)\<lparr>threadcpu := insert 3 {}\<rparr>);
          a = pthread_attr_init\<lparr>explicit_sched := True, schedpolicy := SCHED_FIFO,
                                affinity := Some (threadcpu s1)\<rparr>;
          s2 = s1\<lparr>rt_param := (rt_param s1)[i := rt_max_prio s1 - int i]\<rparr>;
          s3 = s2\<lparr>rt_sched_attr := (rt_sched_attr s2)[i := a\<lparr>schedparam := rt_param s2 ! i\<rparr>]\<rparr>;
          s4 = s3\<lparr>threadParams := (threadParams s3)[i := i]\<rparr>
      in ([Pthread_attr_setaffinity_np i (threadcpu s1),
           Pthread_attr_setschedparam i (rt_param s2 ! i)],
          Inr s4))"

definition setup_attrs :: "main_state \<Rightarrow> result" where
  "setup_attrs s =
     (let r = run_steps (map setup_attr [0..<NUM_THREADS]) s
      in (fst r @ (case snd r of
                     Inl status \<Rightarrow> []
                   | Inr s' \<Rightarrow> [Printf ''Service threads will run on %d CPU cores''
                                  [int (card (threadcpu s'))]]),
          snd r))"

text \<open>Lines 374 to 407: one block per service thread.\<close>

definition create_service :: "env \<Rightarrow> nat \<Rightarrow> service \<Rightarrow> int \<Rightarrow> string \<Rightarrow> string \<Rightarrow> main_state \<Rightarrow> result" where
  "create_service e i entry below failure success s =
     (let s1 = s\<lparr>rt_param := (rt_param s)[i := rt_max_prio s - below]\<rparr>;
          s2 = s1\<lparr>rt_sched_attr :=
                  (rt_sched_attr s1)[i := (rt_sched_attr s1 ! i)\<lparr>schedparam := rt_param s1 ! i\<rparr>]\<rparr>;
          rc = pthread_create_rc e i;
          s3 = (if rc = 0 then s2\<lparr>threads := (threads s2)[i := Some entry]\<rparr> else s2)
      in ([Pthread_attr_setschedparam i (rt_param s1 ! i), Pthread_create i entry,
           (if rc < 0 then Perror failure else Printf success [])],
          Inr s3))"

text \<open>Lines 419 to 440: the timer is created, the handler installed and the timer armed.\<close>

definition start_sequencer :: "env \<Rightarrow> main_state \<Rightarrow> result" where
  "start_sequencer e s =
     (let g1 = (glob s)\<lparr>sequencePeriods := LCM_PERIOD\<rparr>;
          g2 = (if timer_create_rc e = 0 then g1\<lparr>timer_1 := Some zero_itimerspec\<rparr> else g1);
          g3 = g2\<lparr>itime := \<lparr>it_interval = \<lparr>tv_sec = 0, tv_nsec = 10000000\<rparr>,
                             it_value = \<lparr>tv_sec = 0, tv_nsec = 10000000\<rparr>\<rparr>\<rparr>;
          r = timer_settime ([Printf ''Start sequencer'' [], Timer_create, Signal_SIGALRM], g3)
      in (fst r, Inr (s\<lparr>glob := snd r\<rparr>)))"

text \<open>
  \<^verbatim>\<open>main\<close> up to the loop of \<^verbatim>\<open>pthread_join\<close>, where it blocks until the services
  have ended. \<open>Inl status\<close> is the program ended by \<^verbatim>\<open>exit(status)\<close>.
\<close>

definition main :: "env \<Rightarrow> result" where
  "main e =
     run_steps
       [startup e,
        sem_init e S1, sem_init e S2, sem_init e S3,
        main_scheduler e, print_scheduler e, print_scope e,
        setup_attrs,
        create_service e 0 S1 1 ''pthread_create for service 1''
          ''pthread_create successful for service 1'',
        create_service e 1 S2 2 ''pthread_create for service 2''
          ''pthread_create successful for service 2'',
        create_service e 2 S3 3 ''pthread_create for service 3''
          ''pthread_create successful for service 3'',
        start_sequencer e]
       init_main"


section \<open>The run of the Sequencer\<close>

text \<open>
  The timer delivers \<^verbatim>\<open>SIGALRM\<close> once per period while it is armed, and each delivery
  runs \<open>Sequencer\<close>. Nothing in the file writes \<^verbatim>\<open>abortTest\<close>; \<open>ext k\<close> says that
  something outside sets it between the expirations \<open>k - 1\<close> and \<open>k\<close>.
  \<open>state_at ext k g\<close> is the state when \<open>k\<close> periods have passed since \<open>g\<close>, and
  \<open>tick_calls ext k g\<close> is what the handler calls at expiration \<open>k\<close> (counted from 0).
\<close>

definition set_abortTest :: "bool \<Rightarrow> globals \<Rightarrow> globals" where
  "set_abortTest b g = (if b then g\<lparr>abortTest := TRUE\<rparr> else g)"

definition tick :: "bool \<Rightarrow> globals \<Rightarrow> call list \<times> globals" where
  "tick b g = (let g' = set_abortTest b g in if armed g' then Sequencer g' else ([], g'))"

fun state_at :: "(nat \<Rightarrow> bool) \<Rightarrow> nat \<Rightarrow> globals \<Rightarrow> globals" where
  "state_at ext 0 g = g"
| "state_at ext (Suc k) g = snd (tick (ext k) (state_at ext k g))"

definition tick_calls :: "(nat \<Rightarrow> bool) \<Rightarrow> nat \<Rightarrow> globals \<Rightarrow> call list" where
  "tick_calls ext k g = fst (tick (ext k) (state_at ext k g))"

definition never :: "nat \<Rightarrow> bool" where
  "never k = False"

definition abort_before :: "nat \<Rightarrow> nat \<Rightarrow> bool" where
  "abort_before j k = (k = j)"

text \<open>
  The period divisors are the literals of lines 471 to 477, and the modulo rule, written
  on its own: the services due at a value of the cycle counter, in the order S1, S2, S3.
\<close>

fun divisor :: "service \<Rightarrow> ull" where
  "divisor S1 = 2"
| "divisor S2 = 10"
| "divisor S3 = 15"

definition due :: "ull \<Rightarrow> service list" where
  "due c = filter (\<lambda>x. c mod divisor x = 0) [S1, S2, S3]"

text \<open>
  Within one run of the handler the releases of the modulo rule come before the timer is
  reprogrammed, the forced releases after it.
\<close>

definition rule_part :: "call list \<Rightarrow> call list" where
  "rule_part cs = takeWhile (\<lambda>c. \<not> is_Timer_settime c) cs"

definition forced_part :: "call list \<Rightarrow> call list" where
  "forced_part cs = dropWhile (\<lambda>c. \<not> is_Timer_settime c) cs"

definition posts :: "service \<Rightarrow> call list \<Rightarrow> nat" where
  "posts x cs = length (filter (\<lambda>c. c = Sem_post x) cs)"

definition enters_termination :: "call list \<Rightarrow> bool" where
  "enters_termination cs = (\<exists>c \<in> set cs. is_Timer_settime c)"

text \<open>The releases of the modulo rule to a service over the first \<open>n\<close> expirations.\<close>

definition released :: "(nat \<Rightarrow> bool) \<Rightarrow> nat \<Rightarrow> service \<Rightarrow> globals \<Rightarrow> nat" where
  "released ext n x g = sum_list (map (\<lambda>k. posts x (rule_part (tick_calls ext k g))) [0..<n])"

section \<open>The services\<close>

text \<open>
  \<^verbatim>\<open>Service_1\<close>, \<^verbatim>\<open>Service_2\<close> and \<^verbatim>\<open>Service_3\<close> are the same text up to the names
  of their semaphore, abort flag and counter. A thread is at the test of its
  \<^verbatim>\<open>while\<close>, inside \<^verbatim>\<open>sem_wait\<close>, or has called \<^verbatim>\<open>pthread_exit\<close>; \<open>Absent\<close> is a thread
  that \<^verbatim>\<open>pthread_create\<close> did not start.
\<close>

datatype pc = Absent | Loop_head | In_sem_wait | Exited

record thread =
  at :: pc
  S_Cnt :: ull
  out :: "call list"

fun number :: "service \<Rightarrow> nat" where
  "number S1 = 1"
| "number S2 = 2"
| "number S3 = 3"

definition thread_started :: "service \<Rightarrow> string" where
  "thread_started x =
     (case x of S1 \<Rightarrow> ''S1 thread @ sec=%6.9lf''
      | S2 \<Rightarrow> ''S2 thread @ sec=%6.9lf''
      | S3 \<Rightarrow> ''S3 thread @ sec=%6.9lf'')"

text \<open>The lines before the loop.\<close>

definition Service_start :: "service \<Rightarrow> thread" where
  "Service_start x = \<lparr>at = Loop_head, S_Cnt = 0, out = [Printf (thread_started x) []]\<rparr>"

text \<open>The test \<^verbatim>\<open>while(!abortS1)\<close>: into \<^verbatim>\<open>sem_wait\<close>, or out of the loop to \<^verbatim>\<open>pthread_exit\<close>.\<close>

definition Service_check :: "service \<Rightarrow> globals \<Rightarrow> thread \<Rightarrow> thread" where
  "Service_check x g t =
     (if abortS g x = 0 then t\<lparr>at := In_sem_wait\<rparr>
      else t\<lparr>at := Exited, out := out t @ [Pthread_exit]\<rparr>)"

text \<open>
  The rest of the loop body once \<^verbatim>\<open>sem_wait\<close> has returned \<open>r\<close>. The body does not look
  at \<open>r\<close>.
\<close>

definition Service_body :: "service \<Rightarrow> wait_result \<Rightarrow> thread \<Rightarrow> thread" where
  "Service_body x r t =
     (let cnt = S_Cnt t + 1
      in t\<lparr>at := Loop_head, S_Cnt := cnt,
           out := out t @ [Sem_wait x r, SyslogPrint_DATA \<lparr>ev_thread = number x, ev_count = cnt\<rparr>]\<rparr>)"

section \<open>Sequencer and services together\<close>

text \<open>
  \<^verbatim>\<open>main\<close> installs \<open>Sequencer\<close> with \<^verbatim>\<open>signal\<close>, and the file defines
  \<^verbatim>\<open>_GNU_SOURCE\<close>: the handler is installed with \<^verbatim>\<open>SA_RESTART\<close>, and \<^verbatim>\<open>SIGALRM\<close>
  is blocked while it runs. The signal is delivered to some thread of the process, which
  stops where it is, runs the handler and goes on; a \<^verbatim>\<open>sem_wait\<close> it was blocked in is
  restarted and does not return. It is the only signal handler of the program. The
  other threads, on their own cores, run beside the handler, so the handler is taken
  apart at each access to a variable the services share with it: every \<^verbatim>\<open>sem_post\<close>
  and every write of an abort flag is a step of its own.
\<close>

datatype thread_id = Main_thread | Service_thread service

text \<open>
  Where the handler is: not running; before the test of line 471, 474 or 477; before
  \<^verbatim>\<open>seqCnt++\<close> and the test of line 485; before the lines 488 to 493; before one of the
  three \<^verbatim>\<open>sem_post\<close> of line 496; before one of the three writes of line 498.
\<close>

datatype handler_pc =
  Idle | Release service | Increment | Disarm | Forced service | Flag service

fun handler_does :: "handler_pc \<Rightarrow> globals \<Rightarrow> call list \<times> globals" where
  "handler_does Idle g = ([], g)"
| "handler_does (Release S1) g = (if seqCnt g mod 2 = 0 then sem_post S1 ([], g) else ([], g))"
| "handler_does (Release S2) g = (if seqCnt g mod 10 = 0 then sem_post S2 ([], g) else ([], g))"
| "handler_does (Release S3) g = (if seqCnt g mod 15 = 0 then sem_post S3 ([], g) else ([], g))"
| "handler_does Increment g = ([], g\<lparr>seqCnt := seqCnt g + 1\<rparr>)"
| "handler_does Disarm g =
     (let r = timer_settime ([], g\<lparr>itime := zero_itimerspec\<rparr>)
      in (fst r @ [Printf ''Disabling sequencer interval timer with abort=%d and %llu of %d''
                     [abortTest (snd r), uint (seqCnt (snd r)), uint (sequencePeriods (snd r))]],
          snd r))"
| "handler_does (Forced x) g = sem_post x ([], g)"
| "handler_does (Flag x) g = ([], g\<lparr>abortS := (abortS g)(x := TRUE)\<rparr>)"

fun handler_next :: "handler_pc \<Rightarrow> globals \<Rightarrow> handler_pc" where
  "handler_next Idle g = Idle"
| "handler_next (Release S1) g = Release S2"
| "handler_next (Release S2) g = Release S3"
| "handler_next (Release S3) g = Increment"
| "handler_next Increment g =
     (if abortTest g \<noteq> 0 \<or> seqCnt g + 1 \<ge> sequencePeriods g then Disarm else Idle)"
| "handler_next Disarm g = Forced S1"
| "handler_next (Forced S1) g = Forced S2"
| "handler_next (Forced S2) g = Forced S3"
| "handler_next (Forced S3) g = Flag S1"
| "handler_next (Flag S1) g = Flag S2"
| "handler_next (Flag S2) g = Flag S3"
| "handler_next (Flag S3) g = Idle"

text \<open>The handler on its own, for \<open>n\<close> steps.\<close>

fun handler_run :: "nat \<Rightarrow> handler_pc \<Rightarrow> call list \<times> globals \<Rightarrow> (call list \<times> globals) \<times> handler_pc" where
  "handler_run 0 p r = (r, p)"
| "handler_run (Suc n) p r =
     handler_run n (handler_next p (snd r))
       (fst r @ fst (handler_does p (snd r)), snd (handler_does p (snd r)))"

text \<open>
  An execution is a list of choices: the timer expires and the signal is delivered to a
  thread, the handler takes its next step, something outside sets \<^verbatim>\<open>abortTest\<close>, or a
  service thread takes its next step. The timer expires only while it is armed, and a
  period (10 ms) is taken to be longer than a run of the handler, so that no signal comes
  while the handler runs. A thread that runs the handler does nothing else until the
  handler returns; a thread inside \<^verbatim>\<open>sem_wait\<close> with no token stays there; a thread
  that has ended or was never started receives no signal. What a service does between
  the return of \<^verbatim>\<open>sem_wait\<close> and the next test of its loop (lines 529 to 539) reads and
  writes only its own locals, so it is one step together with taking the token.
\<close>

datatype choice = Tick thread_id | Handler | Set_abort | Run service

record system =
  shared :: globals
  handler :: handler_pc
  host :: thread_id
  thr :: "service \<Rightarrow> thread"
  seq_calls :: "call list"

fun receives :: "system \<Rightarrow> thread_id \<Rightarrow> bool" where
  "receives s Main_thread = True"
| "receives s (Service_thread x) = (at (thr s x) = Loop_head \<or> at (thr s x) = In_sem_wait)"

definition sys_step :: "choice \<Rightarrow> system \<Rightarrow> system" where
  "sys_step c s =
     (case c of
        Tick w \<Rightarrow>
          (if handler s = Idle \<and> armed (shared s) \<and> receives s w
           then s\<lparr>handler := Release S1, host := w\<rparr> else s)
      | Handler \<Rightarrow>
          s\<lparr>shared := snd (handler_does (handler s) (shared s)),
            handler := handler_next (handler s) (shared s),
            seq_calls := seq_calls s @ fst (handler_does (handler s) (shared s))\<rparr>
      | Set_abort \<Rightarrow> s\<lparr>shared := set_abortTest True (shared s)\<rparr>
      | Run x \<Rightarrow>
          (if handler s \<noteq> Idle \<and> host s = Service_thread x then s
           else
             (case at (thr s x) of
                Loop_head \<Rightarrow> s\<lparr>thr := (thr s)(x := Service_check x (shared s) (thr s x))\<rparr>
              | In_sem_wait \<Rightarrow>
                  (if 0 < semS (shared s) x
                   then s\<lparr>shared := (shared s)\<lparr>semS := (semS (shared s))(x := semS (shared s) x - 1)\<rparr>,
                          thr := (thr s)(x := Service_body x Acquired (thr s x))\<rparr>
                   else s)
              | Absent \<Rightarrow> s
              | Exited \<Rightarrow> s)))"

fun exec :: "choice list \<Rightarrow> system \<Rightarrow> system" where
  "exec [] s = s"
| "exec (c # cs) s = exec cs (sys_step c s)"

text \<open>The system that \<^verbatim>\<open>main\<close> leaves behind when it starts to wait for its threads.\<close>

definition thread_of :: "main_state \<Rightarrow> service \<Rightarrow> thread" where
  "thread_of st x =
     (if Some x \<in> set (threads st) then Service_start x
      else \<lparr>at = Absent, S_Cnt = 0, out = []\<rparr>)"

definition boot :: "main_state \<Rightarrow> system" where
  "boot st =
     \<lparr>shared = glob st, handler = Idle, host = Main_thread, thr = thread_of st, seq_calls = []\<rparr>"

text \<open>
  What the final \<^verbatim>\<open>if\<close> of the handler calls when it is entered from the state \<open>g\<close> in
  which the handler started.
\<close>

definition shutdown_calls :: "globals \<Rightarrow> call list" where
  "shutdown_calls g =
     [Timer_settime zero_itimerspec,
      Printf ''Disabling sequencer interval timer with abort=%d and %llu of %d''
        [abortTest g, uint (seqCnt g + 1), uint (sequencePeriods g)],
      Sem_post S1, Sem_post S2, Sem_post S3]"

section \<open>A run in which every call succeeds\<close>

definition all_succeed :: env where
  "all_succeed =
     \<lparr>nprocs_conf = 4, nprocs = 4, sem_init_rc = (\<lambda>x. 0), sched_get_priority_max_rc = 99,
      sched_get_priority_min_rc = 1, sched_setscheduler_rc = 0,
      sched_getscheduler_rc = SCHED_FIFO, getscope = PTHREAD_SCOPE_SYSTEM,
      pthread_create_rc = (\<lambda>i. 0), timer_create_rc = 0\<rparr>"

text \<open>The globals at the moment \<^verbatim>\<open>main\<close> has armed the timer (see \<open>main_hands_over\<close>).\<close>

definition ten_msec :: itimerspec where
  "ten_msec = \<lparr>it_interval = \<lparr>tv_sec = 0, tv_nsec = 10000000\<rparr>,
               it_value = \<lparr>tv_sec = 0, tv_nsec = 10000000\<rparr>\<rparr>"

definition running_globals :: globals where
  "running_globals =
     \<lparr>abortTest = FALSE, abortS = (\<lambda>x. FALSE), semS = (\<lambda>x. 0), sequencePeriods = LCM_PERIOD,
      timer_1 = Some ten_msec, itime = ten_msec, seqCnt = 0\<rparr>"

text \<open>The statements of \<^verbatim>\<open>main\<close> before the line that prints \<^verbatim>\<open>Start sequencer\<close>.\<close>

definition before_sequencer :: "env \<Rightarrow> (main_state \<Rightarrow> result) list" where
  "before_sequencer e = 
       [startup e,
        sem_init e S1, sem_init e S2, sem_init e S3,
        main_scheduler e, print_scheduler e, print_scope e,
        setup_attrs,
        create_service e 0 S1 1 ''pthread_create for service 1''
          ''pthread_create successful for service 1'',
        create_service e 1 S2 2 ''pthread_create for service 2''
          ''pthread_create successful for service 2'',
        create_service e 2 S3 3 ''pthread_create for service 3''
          ''pthread_create successful for service 3'']"

text \<open>
  The state in which \<^verbatim>\<open>main\<close> reaches its loop of \<^verbatim>\<open>pthread_join\<close> (see
  \<open>main_reaches_join\<close>).
\<close>

definition handed_over :: "env \<Rightarrow> main_state" where
  "handed_over e =
     \<lparr>glob = (if timer_create_rc e = 0 then running_globals
              else init_globals\<lparr>sequencePeriods := LCM_PERIOD, itime := ten_msec\<rparr>),
      allcpuset = {0, 1, 2, 3}, threadcpu = {2}, cpuidx = 2,
      rt_max_prio = sched_get_priority_max_rc e,
      rt_min_prio = sched_get_priority_min_rc e,
      main_param = sched_get_priority_max_rc e,
      rt_param = [sched_get_priority_max_rc e - 1, sched_get_priority_max_rc e - 2,
                  sched_get_priority_max_rc e - 3],
      rt_sched_attr =
        [\<lparr>explicit_sched = True, schedpolicy = SCHED_FIFO, affinity = Some {2},
          schedparam = sched_get_priority_max_rc e - 1\<rparr>,
         \<lparr>explicit_sched = True, schedpolicy = SCHED_FIFO, affinity = Some {3},
          schedparam = sched_get_priority_max_rc e - 2\<rparr>,
         \<lparr>explicit_sched = True, schedpolicy = SCHED_FIFO, affinity = Some {2},
          schedparam = sched_get_priority_max_rc e - 3\<rparr>],
      threadParams = [0, 1, 2],
      threads = [if pthread_create_rc e 0 = 0 then Some S1 else None,
                 if pthread_create_rc e 1 = 0 then Some S2 else None,
                 if pthread_create_rc e 2 = 0 then Some S3 else None]\<rparr>"

text \<open>Environments in which one call fails.\<close>

definition timer_create_fails :: env where
  "timer_create_fails = all_succeed\<lparr>timer_create_rc := - 1\<rparr>"

definition second_semaphore_fails :: env where
  "second_semaphore_fails = all_succeed\<lparr>sem_init_rc := (\<lambda>x. if x = S2 then - 1 else 0)\<rparr>"

text \<open>What a thread has called before it calls \<^verbatim>\<open>timer_create\<close>.\<close>

definition before_timer_create :: "call list \<Rightarrow> call list" where
  "before_timer_create cs = takeWhile (\<lambda>c. c \<noteq> Timer_create) cs"

text \<open>
  \<^verbatim>\<open>threads[i]\<close> is created with the attributes \<^verbatim>\<open>rt_sched_attr[i]\<close> and runs
  \<^verbatim>\<open>Service_1\<close>, \<^verbatim>\<open>Service_2\<close>, \<^verbatim>\<open>Service_3\<close> for \<open>i\<close> = 0, 1, 2: the priority and the
  CPU set a service is created with.
\<close>

fun index :: "service \<Rightarrow> nat" where
  "index S1 = 0"
| "index S2 = 1"
| "index S3 = 2"

definition priority :: "main_state \<Rightarrow> service \<Rightarrow> int" where
  "priority st x = schedparam (rt_sched_attr st ! index x)"

definition cpus :: "main_state \<Rightarrow> service \<Rightarrow> nat set option" where
  "cpus st x = affinity (rt_sched_attr st ! index x)"

text \<open>
  What a service thread has done so far, read off the calls it made: the tokens it took
  from its semaphore and the lines it handed to \<^verbatim>\<open>syslogPrint\<close>.
\<close>

fun is_event :: "call \<Rightarrow> bool" where
  "is_event (SyslogPrint_DATA ev) = True"
| "is_event c = False"

definition events :: "thread \<Rightarrow> nat" where
  "events t = length (filter is_event (out t))"

definition taken :: "service \<Rightarrow> thread \<Rightarrow> nat" where
  "taken x t = length (filter (\<lambda>c. c = Sem_wait x Acquired) (out t))"

text \<open>
  The calls of a service that has taken \<open>n\<close> tokens: the line it prints when it starts,
  and for the \<open>k\<close>-th token the return of \<^verbatim>\<open>sem_wait\<close> followed at once by the line
  with the count \<open>k\<close>.
\<close>

definition service_log :: "service \<Rightarrow> nat \<Rightarrow> call list" where
  "service_log x n =
     Printf (thread_started x) [] #
     concat (map (\<lambda>k. [Sem_wait x Acquired,
                        SyslogPrint_DATA \<lparr>ev_thread = number x, ev_count = of_nat k\<rparr>])
               [1..<Suc n])"

text \<open>
  What holds in every state the program reaches from the one \<^verbatim>\<open>main\<close> hands over: of
  the handler, of the tokens, of the threads.
\<close>

fun before_increment :: "handler_pc \<Rightarrow> bool" where
  "before_increment (Release y) = True"
| "before_increment Increment = True"
| "before_increment p = False"

fun after_disarm :: "handler_pc \<Rightarrow> bool" where
  "after_disarm (Forced y) = True"
| "after_disarm (Flag y) = True"
| "after_disarm p = False"

fun rule_done :: "handler_pc \<Rightarrow> service \<Rightarrow> bool" where
  "rule_done (Release y) x = (index x < index y)"
| "rule_done Increment x = True"
| "rule_done p x = False"

fun forced_pending :: "handler_pc \<Rightarrow> service \<Rightarrow> bool" where
  "forced_pending Disarm x = True"
| "forced_pending (Forced y) x = (index y \<le> index x)"
| "forced_pending p x = False"

definition handler_invariant :: "system \<Rightarrow> bool" where
  "handler_invariant s =
     (sequencePeriods (shared s) = LCM_PERIOD \<and>
      timer_1 (shared s) \<noteq> None \<and>
      unat (seqCnt (shared s)) \<le> 30 \<and>
      (before_increment (handler s) \<or> handler s = Idle \<and> armed (shared s) \<longrightarrow>
         unat (seqCnt (shared s)) < 30) \<and>
      (after_disarm (handler s) \<longrightarrow> \<not> armed (shared s)) \<and>
      (handler s \<noteq> Idle \<and> \<not> after_disarm (handler s) \<longrightarrow> armed (shared s)) \<and>
      enters_termination (seq_calls s) = (\<not> armed (shared s)) \<and>
      (\<forall>x. posts x (forced_part (seq_calls s)) =
             (if armed (shared s) \<or> forced_pending (handler s) x then 0 else 1) \<and>
           posts x (seq_calls s) + (if forced_pending (handler s) x then 1 else 0)
             \<le> 2 * unat (seqCnt (shared s)) + (if rule_done (handler s) x then 1 else 0)))"

definition token_invariant :: "system \<Rightarrow> bool" where
  "token_invariant s =
     (\<forall>x. taken x (thr s x) + semS (shared s) x = posts x (seq_calls s))"

definition thread_invariant :: "system \<Rightarrow> bool" where
  "thread_invariant s =
     (\<forall>x. out (thr s x) =
             (if at (thr s x) = Absent then []
              else service_log x (taken x (thr s x)) @
                   (if at (thr s x) = Exited then [Pthread_exit] else [])) \<and>
           S_Cnt (thr s x) = of_nat (taken x (thr s x)))"


text \<open>The system when every call of \<^verbatim>\<open>main\<close> has succeeded (see \<open>boot_all_succeed\<close>).\<close>

definition started :: system where
  "started =
     \<lparr>shared = running_globals, handler = Idle, host = Main_thread, thr = Service_start,
      seq_calls = []\<rparr>"

text \<open>
  An execution in which \<^verbatim>\<open>abortTest\<close> is set before the first expiration and
  \<^verbatim>\<open>Service_1\<close>, running beside the handler, takes both its tokens and is back in
  \<^verbatim>\<open>sem_wait\<close> before the handler reaches line 498.
\<close>

definition early_consumer :: "choice list" where
  "early_consumer =
     [Run S1, Set_abort, Tick Main_thread,
      Handler, Handler, Handler, Handler, Handler, Handler,
      Run S1, Run S1, Run S1, Run S1,
      Handler, Handler, Handler, Handler, Handler]"

section \<open>Properties of the Sequencer\<close>


lemma sem_post_fst: "fst (sem_post x r) = fst r @ [Sem_post x]"
  by (simp add: sem_post_def)

lemma sem_post_fields:
  "seqCnt (snd (sem_post x r)) = seqCnt (snd r)"
  "abortTest (snd (sem_post x r)) = abortTest (snd r)"
  "sequencePeriods (snd (sem_post x r)) = sequencePeriods (snd r)"
  "timer_1 (snd (sem_post x r)) = timer_1 (snd r)"
  "itime (snd (sem_post x r)) = itime (snd r)"
  "abortS (snd (sem_post x r)) = abortS (snd r)"
  by (simp_all add: sem_post_def)

lemma release_calls: "fst (release g) = map Sem_post (due (seqCnt g))"
  by (simp add: release_def due_def Let_def sem_post_fst sem_post_fields)

lemma release_fields:
  "seqCnt (snd (release g)) = seqCnt g"
  "abortTest (snd (release g)) = abortTest g"
  "sequencePeriods (snd (release g)) = sequencePeriods g"
  "timer_1 (snd (release g)) = timer_1 g"
  "itime (snd (release g)) = itime g"
  "abortS (snd (release g)) = abortS g"
  by (simp_all add: release_def Let_def sem_post_fields)

lemma timer_settime_fst: "fst (timer_settime r) = fst r @ [Timer_settime (itime (snd r))]"
  by (simp add: timer_settime_def)

lemma timer_settime_fields:
  "seqCnt (snd (timer_settime r)) = seqCnt (snd r)"
  "abortTest (snd (timer_settime r)) = abortTest (snd r)"
  "sequencePeriods (snd (timer_settime r)) = sequencePeriods (snd r)"
  "itime (snd (timer_settime r)) = itime (snd r)"
  "abortS (snd (timer_settime r)) = abortS (snd r)"
  "semS (snd (timer_settime r)) = semS (snd r)"
  "timer_1 (snd (timer_settime r)) = map_option (\<lambda>old. itime (snd r)) (timer_1 (snd r))"
  by (simp_all add: timer_settime_def split: option.splits)


lemma shutdown_fst:
  "fst (shutdown r) = fst r @
     [Timer_settime zero_itimerspec,
      Printf ''Disabling sequencer interval timer with abort=%d and %llu of %d''
        [abortTest (snd r), uint (seqCnt (snd r)), uint (sequencePeriods (snd r))],
      Sem_post S1, Sem_post S2, Sem_post S3]"
  by (simp add: shutdown_def Let_def sem_post_fst sem_post_fields timer_settime_fst
      timer_settime_fields)

lemma shutdown_fields:
  "seqCnt (snd (shutdown r)) = seqCnt (snd r)"
  "abortTest (snd (shutdown r)) = abortTest (snd r)"
  "sequencePeriods (snd (shutdown r)) = sequencePeriods (snd r)"
  "itime (snd (shutdown r)) = zero_itimerspec"
  "abortS (snd (shutdown r)) = (\<lambda>x. TRUE)"
  "timer_1 (snd (shutdown r)) = map_option (\<lambda>old. zero_itimerspec) (timer_1 (snd r))"
  by (simp_all add: shutdown_def Let_def sem_post_fields timer_settime_fields)

lemma Sequencer_running:
  assumes "abortTest g = 0" and "\<not> sequencePeriods g \<le> seqCnt g + 1"
  shows "fst (Sequencer g) = map Sem_post (due (seqCnt g))"
    and "seqCnt (snd (Sequencer g)) = seqCnt g + 1"
    and "abortTest (snd (Sequencer g)) = 0"
    and "sequencePeriods (snd (Sequencer g)) = sequencePeriods g"
    and "timer_1 (snd (Sequencer g)) = timer_1 g"
  using assms by (simp_all add: Sequencer_def Let_def release_calls release_fields)

lemma Sequencer_terminating:
  assumes "abortTest g \<noteq> 0 \<or> sequencePeriods g \<le> seqCnt g + 1"
  shows "fst (Sequencer g) = map Sem_post (due (seqCnt g)) @ shutdown_calls g"
    and "timer_1 (snd (Sequencer g)) = map_option (\<lambda>old. zero_itimerspec) (timer_1 g)"
    and "abortS (snd (Sequencer g)) = (\<lambda>x. TRUE)"
    and "itime (snd (Sequencer g)) = zero_itimerspec"
    and "seqCnt (snd (Sequencer g)) = seqCnt g + 1"
  using assms
  by (auto simp add: Sequencer_def Let_def release_calls release_fields shutdown_fst
      shutdown_fields shutdown_calls_def)

lemma armed_set_abortTest: "armed (set_abortTest b g) = armed g"
  by (simp add: set_abortTest_def armed_def)

lemma not_armed_after_shutdown:
  "timer_1 g' = map_option (\<lambda>old. zero_itimerspec) t \<Longrightarrow> \<not> armed g'"
  by (cases t) (simp_all add: armed_def zero_itimerspec_def)

lemma last_tick_word:
  fixes P :: ull
  assumes "\<forall>k<T. Suc k < unat P" and "unat P \<le> Suc T"
  shows "P \<le> of_nat T + 1"
proof (cases T)
  case 0
  with assms(2) show ?thesis by (simp add: word_le_nat_alt)
next
  case (Suc T')
  with assms(1) have "Suc T' < unat P" by simp
  with assms(2) Suc have eq: "unat P = Suc T" by simp
  have "unat (of_nat (Suc T) :: ull) = Suc T"
    by (rule le_unat_uoi [of _ P]) (simp add: eq)
  then have "unat (of_nat T + 1 :: ull) = Suc T" by (simp add: add.commute)
  then show ?thesis by (simp add: word_le_nat_alt eq)
qed

lemma running_word:
  fixes P :: ull
  assumes "Suc k < unat P"
  shows "\<not> P \<le> of_nat k + 1"
proof -
  have "unat (of_nat (Suc k) :: ull) = Suc k"
    by (rule le_unat_uoi [of _ P]) (use assms in simp)
  then have "unat (of_nat k + 1 :: ull) = Suc k" by (simp add: add.commute)
  with assms show ?thesis by (simp add: word_le_nat_alt)
qed


lemma tick_running:
  assumes "seqCnt g = of_nat k" and "abortTest g = 0" and "armed g" and "Suc k < unat (sequencePeriods g)"
  shows "fst (tick False g) = map Sem_post (due (of_nat k))"
    and "seqCnt (snd (tick False g)) = of_nat (Suc k)"
    and "abortTest (snd (tick False g)) = 0"
    and "armed (snd (tick False g))"
    and "sequencePeriods (snd (tick False g)) = sequencePeriods g"
proof -
  have nl: "\<not> sequencePeriods g \<le> seqCnt g + 1"
    using assms(1,4) by (simp add: running_word)
  have t: "tick False g = Sequencer g"
    using assms(3) by (simp add: tick_def set_abortTest_def)
  show "fst (tick False g) = map Sem_post (due (of_nat k))"
    using Sequencer_running(1) [OF assms(2) nl] assms(1) t by simp
  show "seqCnt (snd (tick False g)) = of_nat (Suc k)"
    using Sequencer_running(2) [OF assms(2) nl] assms(1) t by simp
  show "abortTest (snd (tick False g)) = 0"
    using Sequencer_running(3) [OF assms(2) nl] t by simp
  show "armed (snd (tick False g))"
    using Sequencer_running(5) [OF assms(2) nl] t assms(3) by (simp add: armed_def)
  show "sequencePeriods (snd (tick False g)) = sequencePeriods g"
    using Sequencer_running(4) [OF assms(2) nl] t by simp
qed

lemma tick_terminating:
  assumes "seqCnt g = of_nat T" and "abortTest g = 0" and "armed g"
    and "b \<or> sequencePeriods g \<le> of_nat T + 1"
  shows "fst (tick b g) = map Sem_post (due (of_nat T)) @ shutdown_calls (set_abortTest b g)"
    and "\<not> armed (snd (tick b g))"
    and "abortS (snd (tick b g)) = (\<lambda>x. TRUE)"
proof -
  let ?g = "set_abortTest b g"
  have c: "abortTest ?g \<noteq> 0 \<or> sequencePeriods ?g \<le> seqCnt ?g + 1"
    using assms(1,4) by (auto simp add: set_abortTest_def TRUE_def)
  have t: "tick b g = Sequencer ?g"
    using assms(3) by (simp add: tick_def armed_set_abortTest)
  have s: "seqCnt ?g = of_nat T"
    using assms(1) by (simp add: set_abortTest_def)
  show "fst (tick b g) = map Sem_post (due (of_nat T)) @ shutdown_calls (set_abortTest b g)"
    using Sequencer_terminating(1) [OF c] t s by simp
  show "\<not> armed (snd (tick b g))"
    using Sequencer_terminating(2) [OF c] t by (simp add: not_armed_after_shutdown)
  show "abortS (snd (tick b g)) = (\<lambda>x. TRUE)"
    using Sequencer_terminating(3) [OF c] t by simp
qed

lemma tick_disarmed:
  assumes "\<not> armed g"
  shows "fst (tick b g) = []" and "\<not> armed (snd (tick b g))"
  using assms by (simp_all add: tick_def armed_set_abortTest)

text \<open>The state while the run goes on.\<close>

lemma state_at_running:
  assumes "seqCnt g = 0" and "abortTest g = 0" and "armed g"
    and "\<forall>k<T. \<not> ext k \<and> Suc k < unat (sequencePeriods g)"
  shows "k \<le> T \<Longrightarrow>
     seqCnt (state_at ext k g) = of_nat k \<and> abortTest (state_at ext k g) = 0 \<and>
     armed (state_at ext k g) \<and> sequencePeriods (state_at ext k g) = sequencePeriods g"
proof (induction k)
  case 0
  with assms show ?case by simp
next
  case (Suc k)
  then have ih: "seqCnt (state_at ext k g) = of_nat k" "abortTest (state_at ext k g) = 0"
    "armed (state_at ext k g)" "sequencePeriods (state_at ext k g) = sequencePeriods g"
    by simp_all
  from Suc.prems assms(4) have e: "\<not> ext k" and l: "Suc k < unat (sequencePeriods g)"
    by simp_all
  from l ih(4) have l': "Suc k < unat (sequencePeriods (state_at ext k g))" by simp
  show ?case
    using tick_running(2-5) [OF ih(1,2,3) l'] e ih(4) by simp
qed

lemma tick_calls_running:
  assumes "seqCnt g = 0" and "abortTest g = 0" and "armed g"
    and "\<forall>k<T. \<not> ext k \<and> Suc k < unat (sequencePeriods g)"
    and "k < T"
  shows "tick_calls ext k g = map Sem_post (due (of_nat k))"
proof -
  from assms(5) have "k \<le> T" by simp
  from state_at_running [OF assms(1-4) this]
  have ih: "seqCnt (state_at ext k g) = of_nat k" "abortTest (state_at ext k g) = 0"
    "armed (state_at ext k g)" "sequencePeriods (state_at ext k g) = sequencePeriods g"
    by simp_all
  from assms(4,5) have e: "\<not> ext k" and l: "Suc k < unat (sequencePeriods g)"
    by simp_all
  from l ih(4) have l': "Suc k < unat (sequencePeriods (state_at ext k g))" by simp
  show ?thesis
    using tick_running(1) [OF ih(1,2,3) l'] e by (simp add: tick_calls_def)
qed

lemma tick_calls_last:
  assumes "seqCnt g = 0" and "abortTest g = 0" and "armed g"
    and "\<forall>k<T. \<not> ext k \<and> Suc k < unat (sequencePeriods g)"
    and "ext T \<or> unat (sequencePeriods g) \<le> Suc T"
  shows "tick_calls ext T g =
           map Sem_post (due (of_nat T)) @ shutdown_calls (set_abortTest (ext T) (state_at ext T g))"
    and "\<not> armed (state_at ext (Suc T) g)"
    and "abortS (state_at ext (Suc T) g) = (\<lambda>x. TRUE)"
proof -
  from state_at_running [OF assms(1-4) le_refl]
  have ih: "seqCnt (state_at ext T g) = of_nat T" "abortTest (state_at ext T g) = 0"
    "armed (state_at ext T g)" "sequencePeriods (state_at ext T g) = sequencePeriods g"
    by simp_all
  have c: "ext T \<or> sequencePeriods (state_at ext T g) \<le> of_nat T + 1"
  proof (cases "ext T")
    case True
    then show ?thesis by simp
  next
    case False
    with assms(5) have "unat (sequencePeriods g) \<le> Suc T" by simp
    moreover from assms(4) have "\<forall>k<T. Suc k < unat (sequencePeriods g)" by simp
    ultimately show ?thesis using last_tick_word ih(4) by simp
  qed
  show "tick_calls ext T g =
           map Sem_post (due (of_nat T)) @ shutdown_calls (set_abortTest (ext T) (state_at ext T g))"
    using tick_terminating(1) [OF ih(1,2,3) c] by (simp add: tick_calls_def)
  show "\<not> armed (state_at ext (Suc T) g)"
    using tick_terminating(2) [OF ih(1,2,3) c] by simp
  show "abortS (state_at ext (Suc T) g) = (\<lambda>x. TRUE)"
    using tick_terminating(3) [OF ih(1,2,3) c] by simp
qed

lemma disarmed_stays:
  assumes "\<not> armed (state_at ext n g)"
  shows "n \<le> k \<Longrightarrow> \<not> armed (state_at ext k g)"
proof (induction k)
  case 0
  with assms show ?case by simp
next
  case (Suc k)
  show ?case
  proof (cases "n = Suc k")
    case True
    with assms show ?thesis by simp
  next
    case False
    with Suc have "\<not> armed (state_at ext k g)" by simp
    then show ?thesis by (simp add: tick_disarmed)
  qed
qed

lemma tick_calls_after:
  assumes "\<not> armed (state_at ext n g)" and "n \<le> k"
  shows "tick_calls ext k g = []"
  using disarmed_stays [OF assms] by (simp add: tick_calls_def tick_disarmed)

text \<open>Counting the releases of the modulo rule.\<close>


lemma rule_part_posts: "rule_part (map Sem_post xs) = map Sem_post xs"
  by (induction xs) (simp_all add: rule_part_def)

lemma rule_part_posts_shutdown: "rule_part (map Sem_post xs @ shutdown_calls g) = map Sem_post xs"
  by (induction xs) (simp_all add: rule_part_def shutdown_calls_def)

lemma forced_part_posts_shutdown:
  "forced_part (map Sem_post xs @ shutdown_calls g) = shutdown_calls g"
  by (induction xs) (simp_all add: forced_part_def shutdown_calls_def)

lemma posts_due: "posts x (map Sem_post (due c)) = (if c mod divisor x = 0 then 1 else 0)"
  by (cases x) (simp_all add: posts_def due_def)

lemma posts_shutdown_calls: "posts x (shutdown_calls g) = 1"
  by (cases x) (simp_all add: posts_def shutdown_calls_def)

lemma posts_append: "posts x (cs @ ds) = posts x cs + posts x ds"
  by (simp add: posts_def)

lemma unat_divisor: "unat (divisor x) = (case x of S1 \<Rightarrow> 2 | S2 \<Rightarrow> 10 | S3 \<Rightarrow> 15)"
  by (cases x) simp_all

lemma due_of_nat:
  assumes "k < 2 ^ 64"
  shows "((of_nat k :: ull) mod divisor x = 0) = (k mod unat (divisor x) = 0)"
proof -
  have "unat (of_nat k :: ull) = k"
    using assms by (simp add: unat_of_nat)
  then have "unat ((of_nat k :: ull) mod divisor x) = k mod unat (divisor x)"
    by (simp add: unat_mod_distrib)
  then show ?thesis
    by (metis unat_eq_0)
qed

lemma count_multiples:
  fixes d :: nat
  assumes "0 < d"
  shows "sum_list (map (\<lambda>k. if k mod d = 0 then 1 else 0) [0..<Suc n]) = n div d + 1"
proof (induction n)
  case 0
  then show ?case by simp
next
  case (Suc n)
  have "Suc n div d = (if Suc n mod d = 0 then Suc (n div d) else n div d)"
    by (rule div_Suc)
  with Suc show ?case by simp
qed

section \<open>Properties of main\<close>

lemma run_steps_preserves:
  assumes "\<And>f s cs s'. f \<in> set fs \<Longrightarrow> Q s \<Longrightarrow> f s = (cs, Inr s') \<Longrightarrow> Q s'"
  shows "Q s \<Longrightarrow> snd (run_steps fs s) = Inr st \<Longrightarrow> Q st"
  using assms
proof (induction fs arbitrary: s)
  case Nil
  then show ?case by simp
next
  case (Cons f fs)
  obtain cs r where fs: "f s = (cs, r)" by (cases "f s")
  show ?case
  proof (cases r)
    case (Inl status)
    with fs Cons.prems(2) show ?thesis by simp
  next
    case (Inr s')
    with fs Cons.prems(1) Cons.prems(3) [of f s cs s'] have q: "Q s'" by simp
    from Inr fs Cons.prems(2) have r: "snd (run_steps fs s') = Inr st" by (simp add: Let_def)
    have "Q t'" if "g \<in> set fs" "Q t" "g t = (ds, Inr t')" for g t ds t'
      using Cons.prems(3) [of g t ds t'] that by simp
    from Cons.IH [OF q r this] show ?thesis .
  qed
qed

lemma run_steps_append:
  "snd (run_steps (fs @ gs) s) = Inr st \<Longrightarrow>
     \<exists>s'. snd (run_steps fs s) = Inr s' \<and> snd (run_steps gs s') = Inr st"
proof (induction fs arbitrary: s)
  case Nil
  then show ?case by simp
next
  case (Cons f fs)
  obtain cs r where fs: "f s = (cs, r)" by (cases "f s")
  show ?case
  proof (cases r)
    case (Inl status)
    with fs Cons.prems show ?thesis by simp
  next
    case (Inr s')
    with fs Cons.prems have "snd (run_steps (fs @ gs) s') = Inr st" by (simp add: Let_def)
    from Cons.IH [OF this] Inr fs show ?thesis by (simp add: Let_def)
  qed
qed

lemma run_steps_list_all:
  assumes "list_all (\<lambda>f. \<forall>s cs s'. Q s \<longrightarrow> f s = (cs, Inr s') \<longrightarrow> Q s') fs"
  shows "Q s \<Longrightarrow> snd (run_steps fs s) = Inr st \<Longrightarrow> Q st"
proof (rule run_steps_preserves [where Q = Q and fs = fs])
  fix f s cs s'
  assume "f \<in> set fs" and "Q s" and "f s = (cs, Inr s')"
  with assms show "Q s'" unfolding list_all_iff by blast
qed

lemma setup_attr_glob: "glob s = g \<Longrightarrow> setup_attr i s = (cs, Inr s') \<Longrightarrow> glob s' = g"
  by (auto simp add: setup_attr_def Let_def)

lemma setup_attrs_glob:
  assumes "glob s = g" and "setup_attrs s = (cs, Inr s')"
  shows "glob s' = g"
proof -
  from assms(2) have r: "snd (run_steps (map setup_attr [0..<NUM_THREADS]) s) = Inr s'"
    by (simp add: setup_attrs_def Let_def)
  have "list_all (\<lambda>f. \<forall>s cs s'. glob s = g \<longrightarrow> f s = (cs, Inr s') \<longrightarrow> glob s' = g)
          (map setup_attr [0..<NUM_THREADS])"
    unfolding list_all_iff
  proof (intro ballI allI impI)
    fix f t ds t'
    assume "f \<in> set (map setup_attr [0..<NUM_THREADS])"
    then obtain i where "f = setup_attr i" by auto
    moreover assume "glob t = g" and "f t = (ds, Inr t')"
    ultimately show "glob t' = g" using setup_attr_glob by blast
  qed
  from run_steps_list_all [OF this assms(1) r] show ?thesis .
qed

lemma step_keeps_globals:
  "glob s = g \<Longrightarrow> startup e s = (cs, Inr s') \<Longrightarrow> glob s' = g"
  "glob s = g \<Longrightarrow> main_scheduler e s = (cs, Inr s') \<Longrightarrow> glob s' = g"
  "glob s = g \<Longrightarrow> print_scheduler e s = (cs, Inr s') \<Longrightarrow> glob s' = g"
  "glob s = g \<Longrightarrow> print_scope e s = (cs, Inr s') \<Longrightarrow> glob s' = g"
  "glob s = g \<Longrightarrow> create_service e i x b fl su s = (cs, Inr s') \<Longrightarrow> glob s' = g"
  by (auto simp add: startup_def main_scheduler_def print_scheduler_def print_scope_def
      create_service_def Let_def split: if_splits)

lemma sem_init_globals:
  "glob s = init_globals \<Longrightarrow> sem_init e x s = (cs, Inr s') \<Longrightarrow> glob s' = init_globals"
  by (auto simp add: sem_init_def init_globals_def split: if_splits)

lemma main_split: "main e = run_steps (before_sequencer e @ [start_sequencer e]) init_main"
  unfolding main_def before_sequencer_def by (simp only: append.simps)

lemma before_sequencer_globals:
  assumes "snd (run_steps (before_sequencer e) init_main) = Inr s'"
  shows "glob s' = init_globals"
proof -
  have "list_all (\<lambda>f. \<forall>s cs s'. glob s = init_globals \<longrightarrow> f s = (cs, Inr s') \<longrightarrow> glob s' = init_globals)
          (before_sequencer e)"
    unfolding before_sequencer_def list.pred_inject
    by (intro conjI allI impI)
      ((erule (1) step_keeps_globals sem_init_globals setup_attrs_glob) | simp)+
  moreover have "glob init_main = init_globals" by (simp add: init_main_def)
  ultimately show ?thesis using assms by (rule run_steps_list_all)
qed

lemma start_sequencer_globals:
  assumes "snd (start_sequencer e s) = Inr st" and "glob s = init_globals"
  shows "glob st = (if timer_create_rc e = 0 then running_globals
                    else init_globals\<lparr>sequencePeriods := LCM_PERIOD, itime := ten_msec\<rparr>)"
  using assms
  by (auto simp add: start_sequencer_def Let_def timer_settime_def init_globals_def
      running_globals_def ten_msec_def)

lemma main_hands_over:
  assumes "snd (main e) = Inr st" and "timer_create_rc e = 0"
  shows "glob st = running_globals"
proof -
  from assms(1) obtain s' where a: "snd (run_steps (before_sequencer e) init_main) = Inr s'"
    and b: "snd (run_steps [start_sequencer e] s') = Inr st"
    unfolding main_split using run_steps_append by blast
  obtain cs r where c: "start_sequencer e s' = (cs, r)" by (cases "start_sequencer e s'")
  with b have "snd (start_sequencer e s') = Inr st"
    by (cases r) (simp_all add: Let_def)
  from start_sequencer_globals [OF this before_sequencer_globals [OF a]] assms(2)
  show ?thesis by simp
qed

section \<open>The shape of a run\<close>

lemma enters_termination_posts: "\<not> enters_termination (map Sem_post xs)"
  by (induction xs) (simp_all add: enters_termination_def)

lemma enters_termination_shutdown: "enters_termination (cs @ shutdown_calls g)"
  by (simp add: enters_termination_def shutdown_calls_def)

lemma run_length_bound:
  fixes P :: ull
  assumes "\<forall>k<T. \<not> ext k \<and> Suc k < unat P"
  shows "T < 2 ^ 64"
proof (cases T)
  case 0
  then show ?thesis by simp
next
  case (Suc T')
  with assms have "Suc T' < unat P" by simp
  moreover have "unat P < 2 ^ 64" using unsigned_less [of P] by simp
  ultimately show ?thesis using Suc by simp
qed

lemma run_shape:
  assumes "seqCnt g = 0" and "abortTest g = 0" and "armed g"
    and "\<forall>k<T. \<not> ext k \<and> Suc k < unat (sequencePeriods g)"
    and "ext T \<or> unat (sequencePeriods g) \<le> Suc T"
  shows "rule_part (tick_calls ext k g) = (if k \<le> T then map Sem_post (due (of_nat k)) else [])"
    and "enters_termination (tick_calls ext k g) = (k = T)"
    and "T < k \<Longrightarrow> tick_calls ext k g = []"
proof -
  have after: "tick_calls ext k g = []" if "T < k" for k
  proof -
    from that have "Suc T \<le> k" by simp
    with tick_calls_last(2) [OF assms] show ?thesis by (rule tick_calls_after)
  qed
  show "T < k \<Longrightarrow> tick_calls ext k g = []" by (rule after)
  consider "k < T" | "k = T" | "T < k" by arith
  then have "rule_part (tick_calls ext k g) = (if k \<le> T then map Sem_post (due (of_nat k)) else [])
    \<and> enters_termination (tick_calls ext k g) = (k = T)"
  proof cases
    case 1
    with tick_calls_running [OF assms(1-4) 1] show ?thesis
      by (simp add: rule_part_posts enters_termination_posts)
  next
    case 2
    with tick_calls_last(1) [OF assms] show ?thesis
      by (simp add: rule_part_posts_shutdown enters_termination_shutdown)
  next
    case 3
    with after [OF 3] show ?thesis
      by (simp add: rule_part_def enters_termination_def)
  qed
  then show "rule_part (tick_calls ext k g) = (if k \<le> T then map Sem_post (due (of_nat k)) else [])"
    and "enters_termination (tick_calls ext k g) = (k = T)" by simp_all
qed

lemma released_general:
  assumes "seqCnt g = 0" and "abortTest g = 0" and "armed g"
    and "\<forall>k<T. \<not> ext k \<and> Suc k < unat (sequencePeriods g)"
    and "ext T \<or> unat (sequencePeriods g) \<le> Suc T"
    and "Suc T \<le> n"
  shows "released ext n x g = T div unat (divisor x) + 1"
proof -
  let ?F = "\<lambda>k. posts x (rule_part (tick_calls ext k g))"
  let ?d = "unat (divisor x)"
  have d: "0 < ?d" by (cases x) simp_all
  have T: "T < 2 ^ 64" using assms(4) by (rule run_length_bound)
  have F: "?F k = (if k \<le> T then (if k mod ?d = 0 then 1 else 0) else 0)" for k
  proof (cases "k \<le> T")
    case True
    with T have "k < 2 ^ 64" by simp
    then have "((of_nat k :: ull) mod divisor x = 0) = (k mod ?d = 0)" by (rule due_of_nat)
    with True show ?thesis
      by (simp add: run_shape(1) [OF assms(1-5)] posts_due)
  next
    case False
    then show ?thesis
      by (simp add: run_shape(1) [OF assms(1-5)] posts_def)
  qed
  from assms(6) have split: "[0..<n] = [0..<Suc T] @ [Suc T..<n]"
    by (metis le_add_diff_inverse upt_add_eq_append zero_le)
  have a: "sum_list (map ?F [0..<Suc T]) = sum_list (map (\<lambda>k. if k mod ?d = 0 then 1 else 0) [0..<Suc T])"
    by (rule arg_cong [where f = sum_list], rule map_cong) (auto simp add: F)
  have b: "sum_list (map ?F [Suc T..<n]) = 0"
    by (simp add: F)
  have "released ext n x g = sum_list (map ?F [0..<Suc T]) + sum_list (map ?F [Suc T..<n])"
    unfolding released_def by (subst split) simp
  with a b count_multiples [OF d, of T] show ?thesis by simp
qed

lemma running_globals_started:
  "seqCnt running_globals = 0" "abortTest running_globals = 0" "armed running_globals"
  "unat (sequencePeriods running_globals) = 30"
  by (simp_all add: running_globals_def FALSE_def armed_def ten_msec_def zero_timespec_def
      LCM_PERIOD_def)

lemma never_run:
  assumes "0 < unat (sequencePeriods g)"
  shows "\<forall>k<unat (sequencePeriods g) - 1. \<not> never k \<and> Suc k < unat (sequencePeriods g)"
    and "never (unat (sequencePeriods g) - 1) \<or> unat (sequencePeriods g) \<le> Suc (unat (sequencePeriods g) - 1)"
  using assms by (auto simp add: never_def)

section \<open>The claims about the Sequencer\<close>

text \<open>
  C1, as the specification states it, fails: in the run that \<^verbatim>\<open>main\<close> starts, with no
  abort from outside, the timer is disarmed when 30 periods have passed, and the
  modulo rule has released service 1, whose divisor is 2, 15 times and not
  \<open>30 div 2 + 1 = 16\<close> times.
\<close>

theorem released_floor_plus_one_counterexample:
  "armed (state_at never 29 running_globals) \<and>
   \<not> armed (state_at never 30 running_globals) \<and>
   released never 30 S1 running_globals = 15 \<and>
   released never 30 S1 running_globals \<noteq> 30 div unat (divisor S1) + 1"
proof -
  note st = running_globals_started
  have p: "0 < unat (sequencePeriods running_globals)" by (simp add: st(4))
  have h1: "\<forall>k<29. \<not> never k \<and> Suc k < unat (sequencePeriods running_globals)"
    using never_run(1) [OF p] by (simp add: st(4))
  have h2: "never 29 \<or> unat (sequencePeriods running_globals) \<le> Suc 29"
    by (simp add: st(4))
  have a: "armed (state_at never 29 running_globals)"
    using state_at_running [OF st(1-3) h1, of 29] by simp
  have b: "\<not> armed (state_at never 30 running_globals)"
    using tick_calls_last(2) [OF st(1-3) h1 h2] by simp
  have c: "released never 30 S1 running_globals = 15"
    using released_general [OF st(1-3) h1 h2, of 30 S1] by simp
  from a b c show ?thesis by simp
qed

text \<open>
  C1, amended: take a run that starts with the cycle counter at 0, the abort flag clear
  and the timer armed, and that ends at expiration \<open>T\<close> (the handler ran \<open>N = T + 1\<close>
  times): no abort from outside and no cycle limit stopped it before, and at \<open>T\<close> the
  abort flag is set or the limit is reached. Then the modulo rule has released service
  \<open>x\<close> exactly \<open>(N - 1) div d + 1\<close> times, \<open>d\<close> the period divisor of \<open>x\<close>, the release
  at expiration 0 counted; later periods add nothing.
\<close>

theorem released_count:
  assumes "seqCnt g = 0" and "abortTest g = 0" and "armed g"
    and "\<forall>k<N - 1. \<not> ext k \<and> Suc k < unat (sequencePeriods g)"
    and "ext (N - 1) \<or> unat (sequencePeriods g) \<le> N"
    and "0 < N" and "N \<le> n"
  shows "released ext n x g = (N - 1) div unat (divisor x) + 1"
proof -
  from assms(6) have N: "Suc (N - 1) = N" by simp
  from assms(5) N have h2: "ext (N - 1) \<or> unat (sequencePeriods g) \<le> Suc (N - 1)" by simp
  from assms(7) N have h3: "Suc (N - 1) \<le> n" by simp
  from released_general [OF assms(1-4) h2 h3] show ?thesis .
qed

theorem released_count_witness:
  "released never 30 S1 running_globals = 15 \<and>
   released never 30 S2 running_globals = 3 \<and>
   released never 30 S3 running_globals = 2 \<and>
   released (abort_before 5) 6 S1 running_globals = 3"
proof -
  note st = running_globals_started
  have h1: "\<forall>k<30 - 1. \<not> never k \<and> Suc k < unat (sequencePeriods running_globals)"
    by (simp add: st(4) never_def)
  have h2: "never (30 - 1) \<or> unat (sequencePeriods running_globals) \<le> 30"
    by (simp add: st(4))
  have j1: "\<forall>k<6 - 1. \<not> abort_before 5 k \<and> Suc k < unat (sequencePeriods running_globals)"
    by (simp add: st(4) abort_before_def)
  have j2: "abort_before 5 (6 - 1) \<or> unat (sequencePeriods running_globals) \<le> 6"
    by (simp add: abort_before_def)
  show ?thesis
    using released_count [OF st(1-3) h1 h2, of 30 S1]
      released_count [OF st(1-3) h1 h2, of 30 S2]
      released_count [OF st(1-3) h1 h2, of 30 S3]
      released_count [OF st(1-3) j1 j2, of 6 S1]
    by simp
qed

lemma never_30:
  "\<forall>k<29. \<not> never k \<and> Suc k < unat (sequencePeriods running_globals)"
  "never 29 \<or> unat (sequencePeriods running_globals) \<le> Suc 29"
  by (simp_all add: running_globals_started(4) never_def)

lemma in_posts_due: "(Sem_post x \<in> Sem_post ` set (due c)) = (c mod divisor x = 0)"
  by (cases x) (auto simp add: due_def)

lemma released_at_running_globals:
  "(Sem_post x \<in> set (rule_part (tick_calls never k running_globals))) =
     (k < 30 \<and> k mod unat (divisor x) = 0)"
proof (cases "k \<le> 29")
  case True
  then have "k < 2 ^ 64" by simp
  then have "((of_nat k :: ull) mod divisor x = 0) = (k mod unat (divisor x) = 0)"
    by (rule due_of_nat)
  with True show ?thesis
    by (simp add: run_shape(1) [OF running_globals_started(1-3) never_30] in_posts_due)
next
  case False
  then show ?thesis
    by (simp add: run_shape(1) [OF running_globals_started(1-3) never_30])
qed

text \<open>
  C2: in the run that \<^verbatim>\<open>main\<close> starts (\<^verbatim>\<open>sequencePeriods\<close> is \<^verbatim>\<open>LCM_PERIOD\<close>, 30) and
  that nothing aborts, the modulo rule posts to service 1 (divisor 2) exactly at the
  expirations 0, 2, ..., 28, to service 2 (divisor 10) exactly at 0, 10, 20 and to
  service 3 (divisor 15) exactly at 0 and 15: 15, 3 and 2 releases.
\<close>

theorem scenario_2_10_15:
  "sequencePeriods running_globals = 30 \<and>
   divisor S1 = 2 \<and> divisor S2 = 10 \<and> divisor S3 = 15 \<and>
   (\<forall>k. (Sem_post S1 \<in> set (rule_part (tick_calls never k running_globals))) =
        (k \<in> {0, 2, 4, 6, 8, 10, 12, 14, 16, 18, 20, 22, 24, 26, 28})) \<and>
   (\<forall>k. (Sem_post S2 \<in> set (rule_part (tick_calls never k running_globals))) =
        (k \<in> {0, 10, 20})) \<and>
   (\<forall>k. (Sem_post S3 \<in> set (rule_part (tick_calls never k running_globals))) =
        (k \<in> {0, 15})) \<and>
   released never 30 S1 running_globals = 15 \<and>
   released never 30 S2 running_globals = 3 \<and>
   released never 30 S3 running_globals = 2"
proof -
  have a: "(k < 30 \<and> k mod 2 = 0) =
      (k \<in> {0, 2, 4, 6, 8, 10, 12, 14, 16, 18, 20, 22, 24, 26, 28})" for k :: nat
    by (simp only: insert_iff empty_iff) presburger
  have b: "(k < 30 \<and> k mod 10 = 0) = (k \<in> {0, 10, 20})" for k :: nat
    by (simp only: insert_iff empty_iff) presburger
  have c: "(k < 30 \<and> k mod 15 = 0) = (k \<in> {0, 15})" for k :: nat
    by (simp only: insert_iff empty_iff) presburger
  have r: "released never 30 x running_globals = 29 div unat (divisor x) + 1" for x
    using released_general [OF running_globals_started(1-3) never_30, of 30 x] by simp
  have p: "sequencePeriods running_globals = 30"
    by (simp add: running_globals_def LCM_PERIOD_def)
  have s1: "\<forall>k. (Sem_post S1 \<in> set (rule_part (tick_calls never k running_globals))) =
        (k \<in> {0, 2, 4, 6, 8, 10, 12, 14, 16, 18, 20, 22, 24, 26, 28})"
    using released_at_running_globals [of S1] a by simp
  have s2: "\<forall>k. (Sem_post S2 \<in> set (rule_part (tick_calls never k running_globals))) =
        (k \<in> {0, 10, 20})"
    using released_at_running_globals [of S2] b by simp
  have s3: "\<forall>k. (Sem_post S3 \<in> set (rule_part (tick_calls never k running_globals))) =
        (k \<in> {0, 15})"
    using released_at_running_globals [of S3] c by simp
  from p s1 s2 s3 r [of S1] r [of S2] r [of S3] show ?thesis by simp
qed

text \<open>
  C3: take a run that starts with the cycle counter at 0, the abort flag clear, the timer
  armed and a cycle limit \<^verbatim>\<open>sequencePeriods\<close> of at least 1. If nothing sets the abort
  flag, the handler enters its termination branch at the expiration at which the
  counter is \<^verbatim>\<open>sequencePeriods - 1\<close> before the increment and at no other, and after it
  the handler does not run again, so it posts nothing. If the abort flag is first set
  before an expiration \<open>j\<close> earlier than that one, the termination branch is entered at
  \<open>j\<close> and at no other expiration, when \<open>j + 1\<close>, fewer than \<^verbatim>\<open>sequencePeriods\<close>, periods
  have passed.
\<close>

theorem termination_tick:
  assumes "seqCnt g = 0" and "abortTest g = 0" and "armed g"
    and "0 < unat (sequencePeriods g)"
  shows "(\<forall>k. enters_termination (tick_calls never k g) = (Suc k = unat (sequencePeriods g))) \<and>
         (\<forall>k. unat (sequencePeriods g) \<le> k \<longrightarrow> tick_calls never k g = []) \<and>
         (\<forall>ext j. ext j \<and> (\<forall>i<j. \<not> ext i) \<and> Suc j < unat (sequencePeriods g) \<longrightarrow>
            (\<forall>k. enters_termination (tick_calls ext k g) = (k = j)) \<and>
            (\<forall>k. j < k \<longrightarrow> tick_calls ext k g = []) \<and>
            armed (state_at ext j g) \<and> \<not> armed (state_at ext (Suc j) g))"
proof -
  let ?P = "unat (sequencePeriods g)"
  note n = never_run [OF assms(4)]
  have a: "enters_termination (tick_calls never k g) = (Suc k = ?P)" for k
    using run_shape(2) [OF assms(1-3) n, of k] assms(4) by auto
  have b: "tick_calls never k g = []" if "?P \<le> k" for k
  proof -
    from that assms(4) have "?P - 1 < k" by simp
    then show ?thesis by (rule run_shape(3) [OF assms(1-3) n])
  qed
  have c: "(\<forall>k. enters_termination (tick_calls ext k g) = (k = j)) \<and>
            (\<forall>k. j < k \<longrightarrow> tick_calls ext k g = []) \<and>
            armed (state_at ext j g) \<and> \<not> armed (state_at ext (Suc j) g)"
    if "ext j" and "\<forall>i<j. \<not> ext i" and "Suc j < ?P" for ext j
  proof -
    from that(2,3) have h1: "\<forall>k<j. \<not> ext k \<and> Suc k < ?P" by simp
    from that(1) have h2: "ext j \<or> ?P \<le> Suc j" by simp
    have "armed (state_at ext j g)"
      using state_at_running [OF assms(1-3) h1 le_refl] by simp
    moreover have "\<not> armed (state_at ext (Suc j) g)"
      by (rule tick_calls_last(2) [OF assms(1-3) h1 h2])
    ultimately show ?thesis
      using run_shape(2,3) [OF assms(1-3) h1 h2] by simp
  qed
  from a b c show ?thesis by blast
qed

theorem termination_tick_witness:
  "enters_termination (tick_calls never 29 running_globals) \<and>
   \<not> enters_termination (tick_calls never 28 running_globals) \<and>
   tick_calls never 30 running_globals = [] \<and>
   enters_termination (tick_calls (abort_before 5) 5 running_globals) \<and>
   \<not> enters_termination (tick_calls (abort_before 5) 4 running_globals) \<and>
   tick_calls (abort_before 5) 6 running_globals = []"
proof -
  note st = running_globals_started
  have p: "0 < unat (sequencePeriods running_globals)" by (simp add: st(4))
  note t = termination_tick [OF st(1-3) p]
  have e: "abort_before 5 5 \<and> (\<forall>i<5. \<not> abort_before 5 i) \<and>
      Suc 5 < unat (sequencePeriods running_globals)"
    by (simp add: abort_before_def st(4))
  from t have t1: "\<forall>k. enters_termination (tick_calls never k running_globals) =
      (Suc k = unat (sequencePeriods running_globals))" by (rule conjunct1)
  from t have t2: "\<forall>k. unat (sequencePeriods running_globals) \<le> k \<longrightarrow>
      tick_calls never k running_globals = []" by blast
  from t e have t3: "(\<forall>k. enters_termination (tick_calls (abort_before 5) k running_globals) = (k = 5)) \<and>
            (\<forall>k. 5 < k \<longrightarrow> tick_calls (abort_before 5) k running_globals = [])"
    by blast
  from t1 t2 t3 show ?thesis by (simp add: st(4))
qed

section \<open>One run of the handler\<close>

lemma sem_post_semS:
  "semS (snd (sem_post y r)) x = (if x = y then posted (semS (snd r) x) else semS (snd r) x)"
  by (simp add: sem_post_def)

lemma release_semS:
  "semS (snd (release g)) x = (if seqCnt g mod divisor x = 0 then posted (semS g x) else semS g x)"
  by (cases x) (simp_all add: release_def Let_def sem_post_semS sem_post_fields)

lemma shutdown_semS: "semS (snd (shutdown r)) x = posted (semS (snd r) x)"
  by (cases x) (simp_all add: shutdown_def Let_def sem_post_semS timer_settime_fields)

lemma Sequencer_semS:
  "semS (snd (Sequencer g)) x =
     (let v = (if seqCnt g mod divisor x = 0 then posted (semS g x) else semS g x)
      in if abortTest g \<noteq> 0 \<or> sequencePeriods g \<le> seqCnt g + 1 then posted v else v)"
  by (simp add: Sequencer_def Let_def release_fields release_semS shutdown_semS)

lemma Sequencer_rule_part: "rule_part (fst (Sequencer g)) = map Sem_post (due (seqCnt g))"
proof (cases "abortTest g \<noteq> 0 \<or> sequencePeriods g \<le> seqCnt g + 1")
  case True
  then show ?thesis
    by (simp add: Sequencer_terminating(1) rule_part_posts_shutdown)
next
  case False
  then show ?thesis
    by (simp add: Sequencer_running(1) rule_part_posts)
qed

lemma Sequencer_seqCnt: "seqCnt (snd (Sequencer g)) = seqCnt g + 1"
  by (simp add: Sequencer_def Let_def release_fields shutdown_fields)

lemma due_0: "due 0 = [S1, S2, S3]"
  by (simp add: due_def)

lemma posted_mono: "v \<le> posted v" and posted_less: "v < SEM_VALUE_MAX \<Longrightarrow> v < posted v"
  by (simp_all add: posted_def)

text \<open>
  C4: whenever the handler enters its last \<^verbatim>\<open>if\<close> (the abort flag is set, or the
  incremented counter has reached \<^verbatim>\<open>sequencePeriods\<close>), it has, when it returns, set
  \<^verbatim>\<open>itime\<close> to zero and programmed the timer with it, so that the timer is disarmed;
  it has posted each semaphore once after that, on top of the post of the modulo rule if
  the service was due; and every abort flag of a service is \<^verbatim>\<open>TRUE\<close>.
\<close>

theorem termination_branch:
  assumes "abortTest g \<noteq> 0 \<or> sequencePeriods g \<le> seqCnt g + 1"
  shows "itime (snd (Sequencer g)) = zero_itimerspec \<and>
         Timer_settime zero_itimerspec \<in> set (fst (Sequencer g)) \<and>
         timer_1 (snd (Sequencer g)) = map_option (\<lambda>old. zero_itimerspec) (timer_1 g) \<and>
         \<not> armed (snd (Sequencer g)) \<and>
         (\<forall>x. posts x (forced_part (fst (Sequencer g))) = 1 \<and>
              posts x (rule_part (fst (Sequencer g))) = (if seqCnt g mod divisor x = 0 then 1 else 0) \<and>
              posts x (fst (Sequencer g)) = posts x (rule_part (fst (Sequencer g))) + 1 \<and>
              semS (snd (Sequencer g)) x =
                posted (if seqCnt g mod divisor x = 0 then posted (semS g x) else semS g x) \<and>
              abortS (snd (Sequencer g)) x = TRUE)"
proof -
  note t = Sequencer_terminating [OF assms]
  have a: "Timer_settime zero_itimerspec \<in> set (fst (Sequencer g))"
    by (simp add: t(1) shutdown_calls_def)
  have b: "\<not> armed (snd (Sequencer g))"
    using t(2) by (rule not_armed_after_shutdown)
  have c: "posts x (forced_part (fst (Sequencer g))) = 1" for x
    by (simp add: t(1) forced_part_posts_shutdown posts_shutdown_calls)
  have d: "posts x (rule_part (fst (Sequencer g))) = (if seqCnt g mod divisor x = 0 then 1 else 0)" for x
    by (simp add: Sequencer_rule_part posts_due)
  have e: "posts x (fst (Sequencer g)) = posts x (rule_part (fst (Sequencer g))) + 1" for x
    by (simp add: Sequencer_rule_part) (simp add: t(1) posts_append posts_shutdown_calls)
  have f: "semS (snd (Sequencer g)) x =
      posted (if seqCnt g mod divisor x = 0 then posted (semS g x) else semS g x)" for x
    using assms by (simp add: Sequencer_semS Let_def)
  from a b c d e f t(2,3,4) show ?thesis by simp
qed

theorem termination_branch_witness:
  "\<not> armed (snd (Sequencer (running_globals\<lparr>seqCnt := 29\<rparr>))) \<and>
   timer_1 (snd (Sequencer (running_globals\<lparr>seqCnt := 29\<rparr>))) = Some zero_itimerspec \<and>
   posts S1 (fst (Sequencer (running_globals\<lparr>seqCnt := 29\<rparr>))) = 1 \<and>
   semS (snd (Sequencer (running_globals\<lparr>seqCnt := 29\<rparr>))) S1 = 1 \<and>
   abortS (snd (Sequencer (running_globals\<lparr>seqCnt := 29\<rparr>))) S1 = TRUE \<and>
   posts S2 (fst (Sequencer (running_globals\<lparr>seqCnt := 20, abortTest := TRUE\<rparr>))) = 2 \<and>
   semS (snd (Sequencer (running_globals\<lparr>seqCnt := 20, abortTest := TRUE\<rparr>))) S2 = 2"
proof -
  have h: "abortTest (running_globals\<lparr>seqCnt := 29\<rparr>) \<noteq> 0 \<or>
      sequencePeriods (running_globals\<lparr>seqCnt := 29\<rparr>) \<le> seqCnt (running_globals\<lparr>seqCnt := 29\<rparr>) + 1"
    by (simp add: running_globals_def LCM_PERIOD_def)
  have j: "abortTest (running_globals\<lparr>seqCnt := 20, abortTest := TRUE\<rparr>) \<noteq> 0 \<or>
      sequencePeriods (running_globals\<lparr>seqCnt := 20, abortTest := TRUE\<rparr>)
        \<le> seqCnt (running_globals\<lparr>seqCnt := 20, abortTest := TRUE\<rparr>) + 1"
    by (simp add: TRUE_def)
  show ?thesis
    using termination_branch [OF h] termination_branch [OF j]
    by (simp add: running_globals_def posted_def SEM_VALUE_MAX_def)
qed

text \<open>
  C5: in every run of the handler the posts of the modulo rule are those of the services
  due at the value the cycle counter has when the handler starts, each semaphore gets
  its token from that value, and the counter is one more when the handler returns. So
  the first expiration of a run that starts with the counter at 0 posts to all three
  services, and each semaphore that is not full holds more tokens after it.
\<close>

theorem release_before_increment:
  "rule_part (fst (Sequencer g)) = map Sem_post (due (seqCnt g)) \<and>
   (\<forall>x. semS (snd (release g)) x =
        (if seqCnt g mod divisor x = 0 then posted (semS g x) else semS g x)) \<and>
   seqCnt (snd (release g)) = seqCnt g \<and>
   seqCnt (snd (Sequencer g)) = seqCnt g + 1 \<and>
   (seqCnt g = 0 \<and> armed g \<longrightarrow>
      (\<forall>ext. rule_part (tick_calls ext 0 g) = [Sem_post S1, Sem_post S2, Sem_post S3] \<and>
         (\<forall>x. semS g x < SEM_VALUE_MAX \<longrightarrow> semS g x < semS (state_at ext 1 g) x)))"
proof -
  have first: "rule_part (tick_calls ext 0 g) = [Sem_post S1, Sem_post S2, Sem_post S3] \<and>
         (\<forall>x. semS g x < SEM_VALUE_MAX \<longrightarrow> semS g x < semS (state_at ext 1 g) x)"
    if "seqCnt g = 0" and "armed g" for ext
  proof -
    let ?g = "set_abortTest (ext 0) g"
    have t: "tick (ext 0) g = Sequencer ?g"
      using that(2) by (simp add: tick_def armed_set_abortTest)
    have s: "seqCnt ?g = 0" "semS ?g = semS g"
      using that(1) by (simp_all add: set_abortTest_def)
    have "rule_part (tick_calls ext 0 g) = [Sem_post S1, Sem_post S2, Sem_post S3]"
      by (simp add: tick_calls_def t Sequencer_rule_part s due_0)
    moreover have "semS g x < semS (state_at ext 1 g) x" if "semS g x < SEM_VALUE_MAX" for x
    proof -
      have "semS g x < posted (semS g x)" using that by (rule posted_less)
      also have "posted (semS g x) \<le> semS (Sequencer_state) x" if "Sequencer_state = snd (Sequencer ?g)"
        for Sequencer_state
        using that by (simp add: Sequencer_semS Let_def s posted_mono)
      finally show ?thesis by (simp add: t)
    qed
    ultimately show ?thesis by simp
  qed
  show ?thesis
    using first by (simp add: Sequencer_rule_part release_semS release_fields Sequencer_seqCnt)
qed

theorem release_before_increment_witness:
  "rule_part (tick_calls never 0 running_globals) = [Sem_post S1, Sem_post S2, Sem_post S3] \<and>
   0 < semS (state_at never 1 running_globals) S1 \<and>
   0 < semS (state_at never 1 running_globals) S2 \<and>
   0 < semS (state_at never 1 running_globals) S3"
proof -
  have s: "semS running_globals x = 0" for x by (simp add: running_globals_def)
  show ?thesis
    using release_before_increment [of running_globals] running_globals_started(1,3)
    by (simp add: s SEM_VALUE_MAX_def)
qed

section \<open>What main does\<close>

lemma upt_NUM_THREADS: "[0..<NUM_THREADS] = [0, 1, 2]"
  by (simp add: NUM_THREADS_def eval_nat_numeral)

lemma replicate_NUM_THREADS: "replicate NUM_THREADS x = [x, x, x]"
  by (simp add: NUM_THREADS_def eval_nat_numeral)

lemma all_cpus: "fold insert [0..<NUM_CPU_CORES] {} = {0, 1, 2, 3}"
  by (auto simp add: NUM_CPU_CORES_def eval_nat_numeral)

lemma snd_run_steps:
  "snd (run_steps [] s) = Inr s"
  "snd (run_steps (f # fs) s) =
     (case snd (f s) of Inl status \<Rightarrow> Inl status | Inr s' \<Rightarrow> snd (run_steps fs s'))"
  by (simp_all add: Let_def split: prod.splits sum.splits)

lemma fst_run_steps:
  "fst (run_steps [] s) = []"
  "fst (run_steps (f # fs) s) =
     (case snd (f s) of Inl status \<Rightarrow> fst (f s) | Inr s' \<Rightarrow> fst (f s) @ fst (run_steps fs s'))"
  by (simp_all add: Let_def split: prod.splits sum.splits)

lemma create_service_snd:
  "snd (create_service e i entry below failure success s) =
     Inr (s\<lparr>rt_param := (rt_param s)[i := rt_max_prio s - below],
            rt_sched_attr := (rt_sched_attr s)
              [i := (rt_sched_attr s ! i)\<lparr>schedparam := (rt_param s)[i := rt_max_prio s - below] ! i\<rparr>],
            threads := (if pthread_create_rc e i = 0 then (threads s)[i := Some entry]
                        else threads s)\<rparr>)"
  by (simp add: create_service_def Let_def)

lemma create_service_fst:
  "fst (create_service e i entry below failure success s) =
     [Pthread_attr_setschedparam i ((rt_param s)[i := rt_max_prio s - below] ! i),
      Pthread_create i entry,
      (if pthread_create_rc e i < 0 then Perror failure else Printf success [])]"
  by (simp add: create_service_def Let_def)

lemma start_sequencer_snd:
  "snd (start_sequencer e s) =
     Inr (s\<lparr>glob := (glob s)\<lparr>sequencePeriods := LCM_PERIOD,
                 timer_1 := (if timer_create_rc e = 0 then Some ten_msec
                             else map_option (\<lambda>old. ten_msec) (timer_1 (glob s))),
                 itime := ten_msec\<rparr>\<rparr>)"
  by (simp add: start_sequencer_def timer_settime_def Let_def ten_msec_def split: option.splits)

lemma start_sequencer_fst:
  "fst (start_sequencer e s) =
     [Printf ''Start sequencer'' [], Timer_create, Signal_SIGALRM, Timer_settime ten_msec]"
  by (simp add: start_sequencer_def timer_settime_def Let_def ten_msec_def)

lemmas main_steps = main_def startup_def sem_init_def main_scheduler_def print_scheduler_def
      print_scope_def setup_attrs_def upt_NUM_THREADS replicate_NUM_THREADS setup_attr_def
      create_service_snd create_service_fst start_sequencer_snd start_sequencer_fst
      init_main_def Let_def snd_run_steps fst_run_steps

lemma semaphores_initialised: "(\<lambda>x. 0 :: nat)(S1 := 0, S2 := 0, S3 := 0) = (\<lambda>x. 0)"
  by (simp add: fun_eq_iff)

lemma main_reaches_join:
  assumes "sem_init_rc e S1 = 0" and "sem_init_rc e S2 = 0" and "sem_init_rc e S3 = 0"
    and "sched_getscheduler_rc e = SCHED_FIFO"
  shows "snd (main e) = Inr (handed_over e)"
  using assms
  by (simp add: main_steps handed_over_def all_cpus pthread_attr_init_def init_globals_def
      running_globals_def ten_msec_def semaphores_initialised del: run_steps.simps)

lemma main_exits:
  "sem_init_rc e S1 \<noteq> 0 \<Longrightarrow> snd (main e) = Inl (- 1)"
  "sem_init_rc e S2 \<noteq> 0 \<Longrightarrow> snd (main e) = Inl (- 1)"
  "sem_init_rc e S3 \<noteq> 0 \<Longrightarrow> snd (main e) = Inl (- 1)"
  "sched_getscheduler_rc e \<noteq> SCHED_FIFO \<Longrightarrow> snd (main e) = Inl (- 1)"
  by (simp_all add: main_steps del: run_steps.simps)

lemma main_exit_calls:
  "sem_init_rc e S1 \<noteq> 0 \<Longrightarrow>
     fst (main e) = fst (startup e init_main) @
       [Sem_init S1, Printf ''Failed to initialize S1 semaphore'' [], Exit (- 1)]"
  "sem_init_rc e S1 = 0 \<Longrightarrow> sem_init_rc e S2 \<noteq> 0 \<Longrightarrow>
     fst (main e) = fst (startup e init_main) @
       [Sem_init S1, Sem_init S2, Printf ''Failed to initialize S2 semaphore'' [], Exit (- 1)]"
  "sem_init_rc e S1 = 0 \<Longrightarrow> sem_init_rc e S2 = 0 \<Longrightarrow> sem_init_rc e S3 \<noteq> 0 \<Longrightarrow>
     fst (main e) = fst (startup e init_main) @
       [Sem_init S1, Sem_init S2, Sem_init S3,
        Printf ''Failed to initialize S3 semaphore'' [], Exit (- 1)]"
  by (simp_all add: main_steps failed_to_initialize_def del: run_steps.simps)

section \<open>The claims about main\<close>

lemma main_continues:
  assumes "snd (main e) = Inr st"
  shows "st = handed_over e"
    and "sem_init_rc e x = 0"
    and "sched_getscheduler_rc e = SCHED_FIFO"
proof -
  have s: "sem_init_rc e y = 0" for y
    using assms main_exits(1-3) [of e] by (cases y) auto
  have f: "sched_getscheduler_rc e = SCHED_FIFO"
    using assms main_exits(4) [of e] by auto
  from main_reaches_join [OF s s s f] assms show "st = handed_over e" by simp
  from s show "sem_init_rc e x = 0" .
  from f show "sched_getscheduler_rc e = SCHED_FIFO" .
qed

lemma main_calls:
  assumes "sem_init_rc e S1 = 0" and "sem_init_rc e S2 = 0" and "sem_init_rc e S3 = 0"
    and "sched_getscheduler_rc e = SCHED_FIFO"
  shows "fst (main e) =
     fst (startup e init_main) @
     [Sem_init S1, Sem_init S2, Sem_init S3] @
     fst (main_scheduler e init_main) @
     [Printf ''Pthread Policy is SCHED_FIFO'' []] @
     fst (print_scope e (handed_over e)) @
     [Pthread_attr_setaffinity_np 0 {2},
      Pthread_attr_setschedparam 0 (sched_get_priority_max_rc e),
      Pthread_attr_setaffinity_np 1 {3},
      Pthread_attr_setschedparam 1 (sched_get_priority_max_rc e - 1),
      Pthread_attr_setaffinity_np 2 {2},
      Pthread_attr_setschedparam 2 (sched_get_priority_max_rc e - 2),
      Printf ''Service threads will run on %d CPU cores'' [1],
      Pthread_attr_setschedparam 0 (sched_get_priority_max_rc e - 1),
      Pthread_create 0 S1,
      (if pthread_create_rc e 0 < 0 then Perror ''pthread_create for service 1''
       else Printf ''pthread_create successful for service 1'' []),
      Pthread_attr_setschedparam 1 (sched_get_priority_max_rc e - 2),
      Pthread_create 1 S2,
      (if pthread_create_rc e 1 < 0 then Perror ''pthread_create for service 2''
       else Printf ''pthread_create successful for service 2'' []),
      Pthread_attr_setschedparam 2 (sched_get_priority_max_rc e - 3),
      Pthread_create 2 S3,
      (if pthread_create_rc e 2 < 0 then Perror ''pthread_create for service 3''
       else Printf ''pthread_create successful for service 3'' []),
      Printf ''Start sequencer'' [], Timer_create, Signal_SIGALRM, Timer_settime ten_msec]"
  using assms
  by (simp add: main_steps handed_over_def del: run_steps.simps)

lemma startup_calls_harmless:
  "Pthread_create i y \<notin> set (fst (startup e s))"
  "Timer_create \<notin> set (fst (startup e s))"
  "Timer_settime t \<notin> set (fst (startup e s))"
  "Exit status \<notin> set (fst (startup e s))"
  by (simp_all add: startup_def Let_def)

text \<open>
  C7, as the specification states it, fails for the timer: when \<^verbatim>\<open>timer_create\<close> fails
  and every other call succeeds, \<^verbatim>\<open>main\<close> has created the three service threads before
  it calls \<^verbatim>\<open>timer_create\<close>, it never calls \<^verbatim>\<open>exit\<close>, and it reaches its loop of
  \<^verbatim>\<open>pthread_join\<close> with the timer not armed.
\<close>

theorem timer_failure_not_fatal_counterexample:
  "timer_create_rc timer_create_fails \<noteq> 0 \<and>
   snd (main timer_create_fails) = Inr (handed_over timer_create_fails) \<and>
   threads (handed_over timer_create_fails) = [Some S1, Some S2, Some S3] \<and>
   \<not> armed (glob (handed_over timer_create_fails)) \<and>
   Exit (- 1) \<notin> set (fst (main timer_create_fails)) \<and>
   Timer_create \<in> set (fst (main timer_create_fails)) \<and>
   Pthread_create 0 S1 \<in> set (before_timer_create (fst (main timer_create_fails))) \<and>
   Pthread_create 1 S2 \<in> set (before_timer_create (fst (main timer_create_fails))) \<and>
   Pthread_create 2 S3 \<in> set (before_timer_create (fst (main timer_create_fails)))"
proof -
  have e: "sem_init_rc timer_create_fails S1 = 0" "sem_init_rc timer_create_fails S2 = 0"
    "sem_init_rc timer_create_fails S3 = 0" "sched_getscheduler_rc timer_create_fails = SCHED_FIFO"
    by (simp_all add: timer_create_fails_def all_succeed_def)
  have a: "timer_create_rc timer_create_fails \<noteq> 0"
    by (simp add: timer_create_fails_def all_succeed_def)
  have b: "threads (handed_over timer_create_fails) = [Some S1, Some S2, Some S3]"
    by (simp add: handed_over_def timer_create_fails_def all_succeed_def)
  have c: "\<not> armed (glob (handed_over timer_create_fails))"
    by (simp add: handed_over_def timer_create_fails_def all_succeed_def armed_def
        init_globals_def)
  have d: "Exit (- 1) \<notin> set (fst (main timer_create_fails))"
    and "Timer_create \<in> set (fst (main timer_create_fails))"
    and "Pthread_create 0 S1 \<in> set (before_timer_create (fst (main timer_create_fails)))"
    and "Pthread_create 1 S2 \<in> set (before_timer_create (fst (main timer_create_fails)))"
    and "Pthread_create 2 S3 \<in> set (before_timer_create (fst (main timer_create_fails)))"
    unfolding main_calls [OF e] before_timer_create_def
    by (simp_all add: startup_def main_scheduler_def print_scope_def Let_def)
  with a b c main_reaches_join [OF e] show ?thesis by simp
qed

text \<open>
  C7, amended: if the creation of a release semaphore fails, the program reports which
  one and ends with \<^verbatim>\<open>exit(-1)\<close>; it has then created no service thread and has
  neither created nor armed the timer. (The timer is created only after the service
  threads.)
\<close>

theorem semaphore_failure_is_fatal:
  assumes "sem_init_rc e x \<noteq> 0"
  shows "snd (main e) = Inl (- 1) \<and>
         (\<exists>y. sem_init_rc e y \<noteq> 0 \<and> Printf (failed_to_initialize y) [] \<in> set (fst (main e))) \<and>
         last (fst (main e)) = Exit (- 1) \<and>
         (\<forall>i y. Pthread_create i y \<notin> set (fst (main e))) \<and>
         Timer_create \<notin> set (fst (main e)) \<and>
         (\<forall>t. Timer_settime t \<notin> set (fst (main e)))"
proof -
  consider (1) "sem_init_rc e S1 \<noteq> 0"
    | (2) "sem_init_rc e S1 = 0" "sem_init_rc e S2 \<noteq> 0"
    | (3) "sem_init_rc e S1 = 0" "sem_init_rc e S2 = 0" "sem_init_rc e S3 \<noteq> 0"
    using assms by (cases x) auto
  then show ?thesis
  proof cases
    case 1
    have "sem_init_rc e S1 \<noteq> 0 \<and> Printf (failed_to_initialize S1) [] \<in> set (fst (main e))"
      using 1 by (simp add: main_exit_calls(1) failed_to_initialize_def)
    then have "\<exists>y. sem_init_rc e y \<noteq> 0 \<and> Printf (failed_to_initialize y) [] \<in> set (fst (main e))" ..
    then show ?thesis
      using 1 by (simp add: main_exits(1) main_exit_calls(1) startup_calls_harmless)
  next
    case 2
    have "sem_init_rc e S2 \<noteq> 0 \<and> Printf (failed_to_initialize S2) [] \<in> set (fst (main e))"
      using 2 by (simp add: main_exit_calls(2) failed_to_initialize_def)
    then have "\<exists>y. sem_init_rc e y \<noteq> 0 \<and> Printf (failed_to_initialize y) [] \<in> set (fst (main e))" ..
    then show ?thesis
      using 2 by (simp add: main_exits(2) main_exit_calls(2) startup_calls_harmless)
  next
    case 3
    have "sem_init_rc e S3 \<noteq> 0 \<and> Printf (failed_to_initialize S3) [] \<in> set (fst (main e))"
      using 3 by (simp add: main_exit_calls(3) failed_to_initialize_def)
    then have "\<exists>y. sem_init_rc e y \<noteq> 0 \<and> Printf (failed_to_initialize y) [] \<in> set (fst (main e))" ..
    then show ?thesis
      using 3 by (simp add: main_exits(3) main_exit_calls(3) startup_calls_harmless)
  qed
qed

theorem semaphore_failure_is_fatal_witness:
  "sem_init_rc second_semaphore_fails S2 \<noteq> 0 \<and>
   snd (main second_semaphore_fails) = Inl (- 1) \<and>
   last (fst (main second_semaphore_fails)) = Exit (- 1) \<and>
   Pthread_create 0 S1 \<notin> set (fst (main second_semaphore_fails)) \<and>
   Timer_create \<notin> set (fst (main second_semaphore_fails))"
proof -
  have h: "sem_init_rc second_semaphore_fails S2 \<noteq> 0"
    by (simp add: second_semaphore_fails_def all_succeed_def)
  from semaphore_failure_is_fatal [OF h] h show ?thesis by simp
qed

text \<open>
  C6: when \<^verbatim>\<open>main\<close> has done its setup, of any two services the one with the smaller
  period divisor was given the higher priority, and the priority \<^verbatim>\<open>main\<close> asked for
  itself, under which the Sequencer runs, is higher than that of every service: they are
  \<^verbatim>\<open>rt_max_prio\<close> for \<^verbatim>\<open>main\<close> and \<^verbatim>\<open>rt_max_prio\<close> minus 1, 2 and 3 for the services.
  Priorities are small numbers (1 to 99 for \<^verbatim>\<open>SCHED_FIFO\<close>), far from the bounds of
  \<^verbatim>\<open>int\<close>.
\<close>

theorem rate_monotonic_priorities:
  assumes "snd (main e) = Inr st"
  shows "(\<forall>x y. divisor x < divisor y \<longrightarrow> priority st y < priority st x) \<and>
         (\<forall>x. priority st x < main_param st) \<and>
         main_param st = sched_get_priority_max_rc e \<and>
         (\<forall>x. priority st x = sched_get_priority_max_rc e - int (index x) - 1) \<and>
         Sched_setscheduler (main_param st) \<in> set (fst (main e)) \<and>
         (\<forall>x. Pthread_create (index x) x \<in> set (fst (main e)))"
proof -
  note c = main_continues [OF assms]
  have p: "priority st x = sched_get_priority_max_rc e - int (index x) - 1" for x
    by (cases x) (simp_all add: c(1) priority_def handed_over_def)
  have m: "main_param st = sched_get_priority_max_rc e"
    by (simp add: c(1) handed_over_def)
  have o: "priority st y < priority st x" if "divisor x < divisor y" for x y
    using that by (cases x; cases y) (simp_all add: p)
  have t: "Pthread_create (index x) x \<in> set (fst (main e))" for x
    by (cases x) (simp_all add: main_calls [OF c(2) c(2) c(2) c(3)])
  have u: "Sched_setscheduler (main_param st) \<in> set (fst (main e))"
    by (simp add: main_calls [OF c(2) c(2) c(2) c(3)] m main_scheduler_def Let_def)
  from p m o t u show ?thesis by simp
qed

theorem rate_monotonic_priorities_witness:
  "snd (main all_succeed) = Inr (handed_over all_succeed) \<and>
   main_param (handed_over all_succeed) = 99 \<and>
   priority (handed_over all_succeed) S1 = 98 \<and>
   priority (handed_over all_succeed) S2 = 97 \<and>
   priority (handed_over all_succeed) S3 = 96"
proof -
  have e: "sem_init_rc all_succeed S1 = 0" "sem_init_rc all_succeed S2 = 0"
    "sem_init_rc all_succeed S3 = 0" "sched_getscheduler_rc all_succeed = SCHED_FIFO"
    by (simp_all add: all_succeed_def)
  note r = main_reaches_join [OF e]
  have m: "sched_get_priority_max_rc all_succeed = 99" by (simp add: all_succeed_def)
  from rate_monotonic_priorities [OF r] r m show ?thesis by simp
qed

text \<open>
  C9 at the run in which every call succeeds: all that \<^verbatim>\<open>main\<close> calls, in order. The
  only CPU sets it hands out are those of the three attribute objects of the services,
  core 2 for the indices 0 and 2 and core 3 for the index 1; no call gives a CPU set to
  the calling thread, in which the Sequencer runs as the handler of \<^verbatim>\<open>SIGALRM\<close>, and
  \<^verbatim>\<open>allcpuset\<close> is filled but never used.
\<close>

theorem main_pins_only_the_services:
  "fst (main all_succeed) =
     [System ''echo > /dev/null | sudo tee /var/log/syslog'',
      System ''uname -a'',
      Printf ''Starting High Rate Sequencer Demo'' [],
      Printf ''START High Rate Sequencer @ sec=%6.9lf with resolution %6.9lf'' [],
      Printf ''System has %d processors configured and %d available.'' [4, 4],
      Printf ''Using CPUS=%d from total available.'' [4],
      Sem_init S1, Sem_init S2, Sem_init S3,
      Sched_setscheduler 99,
      Printf ''Pthread Policy is SCHED_FIFO'' [],
      Printf ''PTHREAD SCOPE SYSTEM'' [],
      Printf ''rt_max_prio=%d'' [99],
      Printf ''rt_min_prio=%d'' [1],
      Pthread_attr_setaffinity_np 0 {2}, Pthread_attr_setschedparam 0 99,
      Pthread_attr_setaffinity_np 1 {3}, Pthread_attr_setschedparam 1 98,
      Pthread_attr_setaffinity_np 2 {2}, Pthread_attr_setschedparam 2 97,
      Printf ''Service threads will run on %d CPU cores'' [1],
      Pthread_attr_setschedparam 0 98, Pthread_create 0 S1,
      Printf ''pthread_create successful for service 1'' [],
      Pthread_attr_setschedparam 1 97, Pthread_create 1 S2,
      Printf ''pthread_create successful for service 2'' [],
      Pthread_attr_setschedparam 2 96, Pthread_create 2 S3,
      Printf ''pthread_create successful for service 3'' [],
      Printf ''Start sequencer'' [], Timer_create, Signal_SIGALRM, Timer_settime ten_msec] \<and>
   snd (main all_succeed) = Inr (handed_over all_succeed) \<and>
   cpus (handed_over all_succeed) S1 = Some {2} \<and>
   cpus (handed_over all_succeed) S2 = Some {3} \<and>
   cpus (handed_over all_succeed) S3 = Some {2} \<and>
   allcpuset (handed_over all_succeed) = {0, 1, 2, 3}"
proof -
  have e: "sem_init_rc all_succeed S1 = 0" "sem_init_rc all_succeed S2 = 0"
    "sem_init_rc all_succeed S3 = 0" "sched_getscheduler_rc all_succeed = SCHED_FIFO"
    by (simp_all add: all_succeed_def)
  have f: "nprocs_conf all_succeed = 4" "nprocs all_succeed = 4"
    "sched_get_priority_max_rc all_succeed = 99" "sched_get_priority_min_rc all_succeed = 1"
    "sched_setscheduler_rc all_succeed = 0" "getscope all_succeed = PTHREAD_SCOPE_SYSTEM"
    "pthread_create_rc all_succeed i = 0"
    for i
    by (simp_all add: all_succeed_def)
  have a: "cpus (handed_over all_succeed) S1 = Some {2}"
    "cpus (handed_over all_succeed) S2 = Some {3}"
    "cpus (handed_over all_succeed) S3 = Some {2}"
    "allcpuset (handed_over all_succeed) = {0, 1, 2, 3}"
    by (simp_all add: cpus_def handed_over_def)
  have r: "rt_max_prio (handed_over all_succeed) = 99" "rt_min_prio (handed_over all_succeed) = 1"
    by (simp_all add: handed_over_def f)
  show ?thesis
    unfolding main_calls [OF e]
    using a main_reaches_join [OF e]
    by (simp add: startup_def main_scheduler_def print_scope_def Let_def f r all_cpus)
qed

section \<open>Sequencer and services together: what is preserved\<close>

lemma forced_part_append:
  "\<not> enters_termination cs \<Longrightarrow> forced_part (cs @ ds) = forced_part ds"
  by (simp add: forced_part_def enters_termination_def dropWhile_append2)

lemma rule_part_append:
  "\<not> enters_termination cs \<Longrightarrow> rule_part (cs @ ds) = cs @ rule_part ds"
  by (simp add: rule_part_def enters_termination_def takeWhile_append2)

lemma rule_part_terminated:
  "enters_termination cs \<Longrightarrow> rule_part (cs @ ds) = rule_part cs"
  by (auto simp add: rule_part_def enters_termination_def takeWhile_append1)

lemma enters_termination_append:
  "enters_termination (cs @ ds) = (enters_termination cs \<or> enters_termination ds)"
  by (auto simp add: enters_termination_def)

lemma forced_part_posts: "forced_part (map Sem_post xs) = []"
  by (induction xs) (simp_all add: forced_part_def)

lemma unat_seqCnt_Suc:
  fixes w :: ull
  assumes "unat w < 30"
  shows "unat (w + 1) = unat w + 1"
  using assms by (simp add: unat_word_ariths)

lemma posted_small: "v \<le> 61 \<Longrightarrow> posted v = v + 1"
  by (simp add: posted_def SEM_VALUE_MAX_def)

lemma posts_parts: "posts x cs = posts x (rule_part cs) + posts x (forced_part cs)"
proof -
  have "cs = rule_part cs @ forced_part cs"
    by (simp add: rule_part_def forced_part_def)
  then have "posts x cs = posts x (rule_part cs @ forced_part cs)" by simp
  then show ?thesis by (simp add: posts_append)
qed

section \<open>The handler step by step\<close>

lemma handler_run_add:
  "handler_run (m + n) p r = handler_run n (snd (handler_run m p r)) (fst (handler_run m p r))"
  by (induction m arbitrary: p r) simp_all

lemma handler_run_Idle: "handler_run n Idle r = (r, Idle)"
  by (induction n arbitrary: r) simp_all

lemma handler_run_release:
  "handler_run 3 (Release S1) ([], g) = (release g, Increment)"
proof -
  have "handler_run (Suc (Suc (Suc 0))) (Release S1) ([], g) = (release g, Increment)"
    by (simp add: release_def Let_def sem_post_def)
  then show ?thesis by (simp add: eval_nat_numeral)
qed

lemma all_flags: "(f :: service \<Rightarrow> int)(S1 := TRUE, S2 := TRUE, S3 := TRUE) = (\<lambda>x. TRUE)"
proof
  fix x show "(f(S1 := TRUE, S2 := TRUE, S3 := TRUE)) x = TRUE" by (cases x) simp_all
qed

lemma handler_run_shutdown:
  "handler_run 7 Disarm r = (shutdown r, Idle)"
proof -
  have "handler_run (Suc (Suc (Suc (Suc (Suc (Suc (Suc 0))))))) Disarm r = (shutdown r, Idle)"
    by (simp add: shutdown_def Let_def sem_post_def timer_settime_def all_flags
        split: option.splits)
  then show ?thesis by (simp add: eval_nat_numeral)
qed

lemma handler_run_increment:
  "handler_run 1 Increment r =
     ((fst r, (snd r)\<lparr>seqCnt := seqCnt (snd r) + 1\<rparr>),
      if abortTest (snd r) \<noteq> 0 \<or> sequencePeriods (snd r) \<le> seqCnt (snd r) + 1
      then Disarm else Idle)"
  by simp

text \<open>Run without interruption, the steps of the handler are \<open>Sequencer\<close>.\<close>

lemma handler_is_Sequencer:
  "handler_run 11 (Release S1) ([], g) = (Sequencer g, Idle)"
proof -
  have "handler_run (3 + (1 + 7)) (Release S1) ([], g) = (Sequencer g, Idle)"
    unfolding handler_run_add [of 3] handler_run_release
    unfolding handler_run_add [of 1] 
    by (simp only: handler_run_increment fst_conv snd_conv)
      (simp add: Sequencer_def Let_def release_fields handler_run_shutdown handler_run_Idle)
  then show ?thesis by simp
qed

section \<open>What every step preserves\<close>

lemma Handler_step:
  "shared (sys_step Handler s) = snd (handler_does (handler s) (shared s))"
  "handler (sys_step Handler s) = handler_next (handler s) (shared s)"
  "seq_calls (sys_step Handler s) = seq_calls s @ fst (handler_does (handler s) (shared s))"
  "thr (sys_step Handler s) = thr s"
  "host (sys_step Handler s) = host s"
  by (simp_all add: sys_step_def)

lemma handler_does_keeps:
  "sequencePeriods (snd (handler_does p g)) = sequencePeriods g"
  "abortTest (snd (handler_does p g)) = abortTest g"
  "p \<noteq> Disarm \<Longrightarrow> timer_1 (snd (handler_does p g)) = timer_1 g"
  "p \<noteq> Increment \<Longrightarrow> seqCnt (snd (handler_does p g)) = seqCnt g"
  by (cases "(p, g)" rule: handler_does.cases;
      simp add: sem_post_def timer_settime_def Let_def split: option.splits)+

lemma handler_does_armed: "p \<noteq> Disarm \<Longrightarrow> armed (snd (handler_does p g)) = armed g"
  by (simp add: armed_def handler_does_keeps)

lemma Release_calls:
  "fst (handler_does (Release y) g) = (if seqCnt g mod divisor y = 0 then [Sem_post y] else [])"
  by (cases y) (simp_all add: sem_post_def)

lemma Release_semS:
  "semS (snd (handler_does (Release y) g)) x =
     (if x = y \<and> seqCnt g mod divisor y = 0 then posted (semS g x) else semS g x)"
  by (cases y) (simp_all add: sem_post_def)

lemma Forced_calls: "fst (handler_does (Forced y) g) = [Sem_post y]"
  by (simp add: sem_post_def)

lemma Forced_semS:
  "semS (snd (handler_does (Forced y) g)) x = (if x = y then posted (semS g x) else semS g x)"
  by (simp add: sem_post_def)

lemma Disarm_does:
  "fst (handler_does Disarm g) =
     [Timer_settime zero_itimerspec,
      Printf ''Disabling sequencer interval timer with abort=%d and %llu of %d''
        [abortTest g, uint (seqCnt g), uint (sequencePeriods g)]]"
  "timer_1 (snd (handler_does Disarm g)) = map_option (\<lambda>old. zero_itimerspec) (timer_1 g)"
  "seqCnt (snd (handler_does Disarm g)) = seqCnt g"
  "semS (snd (handler_does Disarm g)) = semS g"
  by (simp_all add: timer_settime_def Let_def split: option.splits)

lemma other_semS:
  "semS (snd (handler_does Idle g)) = semS g"
  "semS (snd (handler_does Increment g)) = semS g"
  "semS (snd (handler_does (Flag y) g)) = semS g"
  by simp_all

lemma other_calls:
  "fst (handler_does Idle g) = []"
  "fst (handler_does Increment g) = []"
  "fst (handler_does (Flag y) g) = []"
  by simp_all

lemma next_Release:
  "handler_next (Release y) g \<noteq> Idle"
  "before_increment (handler_next (Release y) g)"
  "\<not> after_disarm (handler_next (Release y) g)"
  "\<not> forced_pending (handler_next (Release y) g) x"
  "rule_done (handler_next (Release y) g) x = (rule_done (Release y) x \<or> x = y)"
  by (cases y; cases x; simp)+

lemma next_Forced:
  "after_disarm (handler_next (Forced y) g)"
  "\<not> before_increment (handler_next (Forced y) g)"
  "handler_next (Forced y) g \<noteq> Idle"
  "\<not> rule_done (handler_next (Forced y) g) x"
  "forced_pending (handler_next (Forced y) g) x = (forced_pending (Forced y) x \<and> x \<noteq> y)"
  by (cases y; cases x; simp)+

lemma next_Flag:
  "\<not> before_increment (handler_next (Flag y) g)"
  "\<not> rule_done (handler_next (Flag y) g) x"
  "\<not> forced_pending (handler_next (Flag y) g) x"
  "handler_next (Flag y) g = Idle \<or> after_disarm (handler_next (Flag y) g)"
  by (cases y; simp)+

lemma forced_part_terminated:
  "enters_termination cs \<Longrightarrow> forced_part (cs @ ds) = forced_part cs @ ds"
  by (auto simp add: forced_part_def enters_termination_def dropWhile_append1)

lemma posts_single: "posts x [Sem_post y] = (if x = y then 1 else 0)"
  by (auto simp add: posts_def)

lemma posts_Nil: "posts x [] = 0"
  by (simp add: posts_def)

lemma Release_no_termination: "\<not> enters_termination (fst (handler_does (Release y) g))"
  by (simp add: Release_calls enters_termination_def)

lemma Release_forced_part: "forced_part (fst (handler_does (Release y) g)) = []"
  by (simp add: Release_calls forced_part_def)

lemma handler_invariant_Release:
  assumes "handler_invariant s" and "handler s = Release y"
  shows "handler_invariant (sys_step Handler s)"
proof -
  let ?g = "shared s"
  let ?d = "handler_does (Release y) ?g"
  from assms have i: "sequencePeriods ?g = LCM_PERIOD" "timer_1 ?g \<noteq> None"
    "unat (seqCnt ?g) < 30" "armed ?g" "\<not> enters_termination (seq_calls s)"
    by (simp_all add: handler_invariant_def)
  from assms have b: "posts x (seq_calls s) \<le> 2 * unat (seqCnt ?g) + (if rule_done (Release y) x then 1 else 0)"
    for x
    by (simp add: handler_invariant_def)
  have k: "sequencePeriods (snd ?d) = LCM_PERIOD" "timer_1 (snd ?d) \<noteq> None"
    "seqCnt (snd ?d) = seqCnt ?g" "armed (snd ?d)"
    using i by (simp_all add: handler_does_keeps handler_does_armed)
  have t: "\<not> enters_termination (seq_calls s @ fst ?d)"
    using i(5) by (simp add: enters_termination_append Release_no_termination)
  have f: "posts x (forced_part (seq_calls s @ fst ?d)) = 0" for x
    by (simp only: forced_part_append [OF i(5)] Release_forced_part posts_Nil)
  have p: "posts x (seq_calls s @ fst ?d) \<le>
      2 * unat (seqCnt ?g) + (if rule_done (handler_next (Release y) ?g) x then 1 else 0)" for x
    using b [of x]
    by (auto simp add: posts_append Release_calls posts_single posts_Nil next_Release(5))
  show ?thesis
    unfolding handler_invariant_def Handler_step assms(2)
    using k t f p i(3) by (simp add: next_Release)
qed

lemma handler_invariant_Increment:
  assumes "handler_invariant s" and "handler s = Increment"
  shows "handler_invariant (sys_step Handler s)"
proof -
  let ?g = "shared s"
  let ?g' = "snd (handler_does Increment ?g)"
  from assms have i: "sequencePeriods ?g = LCM_PERIOD" "timer_1 ?g \<noteq> None"
    "unat (seqCnt ?g) < 30" "armed ?g" "\<not> enters_termination (seq_calls s)"
    by (simp_all add: handler_invariant_def)
  from assms have b: "posts x (seq_calls s) \<le> 2 * unat (seqCnt ?g) + 1"
    and f: "posts x (forced_part (seq_calls s)) = 0" for x
    by (simp_all add: handler_invariant_def)
  have c: "unat (seqCnt ?g') = unat (seqCnt ?g) + 1"
    using i(3) by (simp add: unat_seqCnt_Suc)
  have k: "sequencePeriods ?g' = LCM_PERIOD" "timer_1 ?g' \<noteq> None" "armed ?g'"
    using i by (simp_all add: armed_def)
  show ?thesis
  proof (cases "abortTest ?g \<noteq> 0 \<or> sequencePeriods ?g \<le> seqCnt ?g + 1")
    case True
    then have n: "handler_next Increment ?g = Disarm" by simp
    have b': "posts x (seq_calls s) + 1 \<le> 2 * unat (seqCnt ?g')" for x
      using b [of x] c by simp
    have l: "unat (seqCnt ?g') \<le> 30" using c i(3) by simp
    show ?thesis
      unfolding handler_invariant_def Handler_step assms(2) n other_calls append_Nil2
      using k l i(5) f b' by simp
  next
    case False
    then have n: "handler_next Increment ?g = Idle" by simp
    from False i(1) have "unat (seqCnt ?g + 1) < 30"
      by (simp add: word_le_nat_alt LCM_PERIOD_def)
    then have l: "unat (seqCnt ?g') < 30" by simp
    have b': "posts x (seq_calls s) \<le> 2 * unat (seqCnt ?g')" for x
      using b [of x] c by simp
    show ?thesis
      unfolding handler_invariant_def Handler_step assms(2) n other_calls append_Nil2
      using k l i(5) f b' by simp
  qed
qed

lemma Disarm_calls:
  "enters_termination (fst (handler_does Disarm g))"
  "posts x (forced_part (fst (handler_does Disarm g))) = 0"
  "posts x (fst (handler_does Disarm g)) = 0"
  unfolding Disarm_does(1)
  by (simp_all add: enters_termination_def forced_part_def posts_def)

lemma handler_invariant_Disarm:
  assumes "handler_invariant s" and "handler s = Disarm"
  shows "handler_invariant (sys_step Handler s)"
proof -
  let ?g = "shared s"
  let ?d = "handler_does Disarm ?g"
  from assms have i: "sequencePeriods ?g = LCM_PERIOD" "timer_1 ?g \<noteq> None"
    "unat (seqCnt ?g) \<le> 30" "armed ?g" "\<not> enters_termination (seq_calls s)"
    by (simp_all add: handler_invariant_def)
  from assms have b: "posts x (seq_calls s) + 1 \<le> 2 * unat (seqCnt ?g)" for x
    by (simp add: handler_invariant_def)
  have k: "sequencePeriods (snd ?d) = LCM_PERIOD" "timer_1 (snd ?d) \<noteq> None"
    "seqCnt (snd ?d) = seqCnt ?g" "\<not> armed (snd ?d)"
    using i(1,2) Disarm_does(2) [of ?g]
    by (simp_all only: handler_does_keeps Disarm_does(3) not_armed_after_shutdown
        option.map_disc_iff not_False_eq_True)
  have t: "enters_termination (seq_calls s @ fst ?d)"
    by (simp only: enters_termination_append Disarm_calls(1) simp_thms)
  have f: "posts x (forced_part (seq_calls s @ fst ?d)) = 0" for x
    by (simp only: forced_part_append [OF i(5)] Disarm_calls(2))
  have p: "posts x (seq_calls s @ fst ?d) + 1 \<le> 2 * unat (seqCnt ?g)" for x
    using b [of x] by (simp only: posts_append Disarm_calls(3) add_0_right)
  show ?thesis
    unfolding handler_invariant_def Handler_step assms(2)
    using k t f p i(3) by simp
qed

lemma handler_invariant_Forced:
  assumes "handler_invariant s" and "handler s = Forced y"
  shows "handler_invariant (sys_step Handler s)"
proof -
  let ?g = "shared s"
  let ?d = "handler_does (Forced y) ?g"
  from assms have i: "sequencePeriods ?g = LCM_PERIOD" "timer_1 ?g \<noteq> None"
    "unat (seqCnt ?g) \<le> 30" "\<not> armed ?g" "enters_termination (seq_calls s)"
    by (simp_all add: handler_invariant_def)
  from assms have b: "posts x (seq_calls s) + (if forced_pending (Forced y) x then 1 else 0)
      \<le> 2 * unat (seqCnt ?g)"
    and f: "posts x (forced_part (seq_calls s)) = (if forced_pending (Forced y) x then 0 else 1)"
    for x
    by (simp_all add: handler_invariant_def)
  have y: "forced_pending (Forced y) y" by simp
  have k: "sequencePeriods (snd ?d) = LCM_PERIOD" "timer_1 (snd ?d) \<noteq> None"
    "seqCnt (snd ?d) = seqCnt ?g" "\<not> armed (snd ?d)"
    using i by (simp_all add: handler_does_keeps handler_does_armed del: handler_does.simps)
  have t: "enters_termination (seq_calls s @ fst ?d)"
    using i(5) by (simp add: enters_termination_append del: handler_does.simps)
  have f': "posts x (forced_part (seq_calls s @ fst ?d)) =
      (if forced_pending (handler_next (Forced y) ?g) x then 0 else 1)" for x
    using f [of x] y
    by (auto simp add: forced_part_terminated [OF i(5)] posts_append Forced_calls posts_single
        next_Forced(5) simp del: handler_does.simps handler_next.simps)
  have p: "posts x (seq_calls s @ fst ?d) +
      (if forced_pending (handler_next (Forced y) ?g) x then 1 else 0) \<le> 2 * unat (seqCnt ?g)"
    for x
    using b [of x] y
    by (auto simp add: posts_append Forced_calls posts_single next_Forced(5)
        simp del: handler_does.simps handler_next.simps)
  show ?thesis
    unfolding handler_invariant_def Handler_step assms(2)
    using k t f' p i(3) by (simp add: next_Forced del: handler_does.simps handler_next.simps)
qed

lemma handler_invariant_Flag:
  assumes "handler_invariant s" and "handler s = Flag y"
  shows "handler_invariant (sys_step Handler s)"
proof -
  let ?g = "shared s"
  let ?d = "handler_does (Flag y) ?g"
  from assms have i: "sequencePeriods ?g = LCM_PERIOD" "timer_1 ?g \<noteq> None"
    "unat (seqCnt ?g) \<le> 30" "\<not> armed ?g" "enters_termination (seq_calls s)"
    by (simp_all add: handler_invariant_def)
  from assms have b: "posts x (seq_calls s) \<le> 2 * unat (seqCnt ?g)"
    and f: "posts x (forced_part (seq_calls s)) = 1" for x
    by (simp_all add: handler_invariant_def)
  have k: "sequencePeriods (snd ?d) = LCM_PERIOD" "timer_1 (snd ?d) \<noteq> None"
    "seqCnt (snd ?d) = seqCnt ?g" "\<not> armed (snd ?d)"
    using i by (simp_all add: handler_does_keeps handler_does_armed del: handler_does.simps)
  show ?thesis
    unfolding handler_invariant_def Handler_step assms(2) other_calls append_Nil2
    using k i(3,5) f b next_Flag(4) [of y ?g]
    by (auto simp add: next_Flag simp del: handler_does.simps handler_next.simps)
qed

lemma handler_invariant_Handler:
  assumes "handler_invariant s"
  shows "handler_invariant (sys_step Handler s)"
proof (cases "handler s")
  case Idle
  then have "sys_step Handler s = s" by (simp add: sys_step_def)
  with assms show ?thesis by simp
next
  case (Release y)
  with assms show ?thesis by (rule handler_invariant_Release)
next
  case Increment
  with assms show ?thesis by (rule handler_invariant_Increment)
next
  case Disarm
  with assms show ?thesis by (rule handler_invariant_Disarm)
next
  case (Forced y)
  with assms show ?thesis by (rule handler_invariant_Forced)
next
  case (Flag y)
  with assms show ?thesis by (rule handler_invariant_Flag)
qed

lemma handler_invariant_frame:
  assumes "handler_invariant s"
    and "sequencePeriods (shared s') = sequencePeriods (shared s)"
    and "timer_1 (shared s') = timer_1 (shared s)"
    and "seqCnt (shared s') = seqCnt (shared s)"
    and "handler s' = handler s" and "seq_calls s' = seq_calls s"
  shows "handler_invariant s'"
proof -
  have "armed (shared s') = armed (shared s)"
    by (simp add: armed_def assms(3))
  with assms show ?thesis by (simp add: handler_invariant_def)
qed

lemma token_invariant_frame:
  assumes "token_invariant s"
    and "\<And>x. taken x (thr s' x) + semS (shared s') x = taken x (thr s x) + semS (shared s) x"
    and "seq_calls s' = seq_calls s"
  shows "token_invariant s'"
  using assms by (simp add: token_invariant_def)

lemma tokens_small:
  assumes "handler_invariant s" and "token_invariant s"
  shows "semS (shared s) x \<le> 61"
proof -
  from assms(1) have a: "posts x (seq_calls s) + (if forced_pending (handler s) x then 1 else 0)
      \<le> 2 * unat (seqCnt (shared s)) + (if rule_done (handler s) x then 1 else 0)"
    and c: "unat (seqCnt (shared s)) \<le> 30"
    by (simp_all add: handler_invariant_def)
  from assms(2) have t: "taken x (thr s x) + semS (shared s) x = posts x (seq_calls s)"
    by (simp add: token_invariant_def)
  have "posts x (seq_calls s) \<le> 2 * unat (seqCnt (shared s)) + 1"
    using a by (cases "forced_pending (handler s) x"; cases "rule_done (handler s) x") simp_all
  with c t show ?thesis by arith
qed

lemma handler_tokens:
  assumes "semS g x \<le> 61"
  shows "semS (snd (handler_does p g)) x = semS g x + posts x (fst (handler_does p g))"
proof (cases p)
  case Idle
  then show ?thesis by (simp add: posts_Nil)
next
  case (Release y)
  then show ?thesis
    using assms by (auto simp add: Release_semS Release_calls posts_single posts_Nil posted_small)
next
  case Increment
  then show ?thesis by (simp add: posts_Nil)
next
  case Disarm
  then show ?thesis by (simp only: Disarm_does(4) Disarm_calls(3) add_0_right)
next
  case (Forced y)
  then show ?thesis
    using assms
    by (auto simp add: Forced_semS Forced_calls posts_single posted_small
        simp del: handler_does.simps)
next
  case (Flag y)
  then show ?thesis by (simp add: posts_Nil)
qed

lemma token_invariant_Handler:
  assumes "handler_invariant s" and "token_invariant s"
  shows "token_invariant (sys_step Handler s)"
proof -
  have "taken x (thr s x) + semS (snd (handler_does (handler s) (shared s))) x =
      posts x (seq_calls s @ fst (handler_does (handler s) (shared s)))" for x
    using assms(2) handler_tokens [OF tokens_small [OF assms, of x], of "handler s"]
    by (simp add: token_invariant_def posts_append)
  then show ?thesis
    unfolding token_invariant_def Handler_step by simp
qed

lemma thread_invariant_frame:
  assumes "thread_invariant s" and "thr s' = thr s"
  shows "thread_invariant s'"
  using assms by (simp add: thread_invariant_def)

lemma Tick_step:
  "shared (sys_step (Tick w) s) = shared s"
  "thr (sys_step (Tick w) s) = thr s"
  "seq_calls (sys_step (Tick w) s) = seq_calls s"
  "handler (sys_step (Tick w) s) =
     (if handler s = Idle \<and> armed (shared s) \<and> receives s w then Release S1 else handler s)"
  by (simp_all add: sys_step_def)

lemma Set_abort_step:
  "shared (sys_step Set_abort s) = (shared s)\<lparr>abortTest := TRUE\<rparr>"
  "thr (sys_step Set_abort s) = thr s"
  "seq_calls (sys_step Set_abort s) = seq_calls s"
  "handler (sys_step Set_abort s) = handler s"
  "host (sys_step Set_abort s) = host s"
  by (simp_all add: sys_step_def set_abortTest_def)

lemma handler_invariant_Tick:
  assumes "handler_invariant s"
  shows "handler_invariant (sys_step (Tick w) s)"
proof (cases "handler s = Idle \<and> armed (shared s) \<and> receives s w")
  case False
  then have "sys_step (Tick w) s = s" by (auto simp add: sys_step_def)
  with assms show ?thesis by simp
next
  case True
  then have h: "handler (sys_step (Tick w) s) = Release S1" by (simp add: Tick_step)
  from assms True show ?thesis
    unfolding handler_invariant_def h Tick_step(1,3) by simp
qed

lemma sequencer_invariants_Tick:
  assumes "token_invariant s" and "thread_invariant s"
  shows "token_invariant (sys_step (Tick w) s)" and "thread_invariant (sys_step (Tick w) s)"
  using assms by (simp_all add: token_invariant_def thread_invariant_def Tick_step)

lemma invariants_Set_abort:
  assumes "handler_invariant s" and "token_invariant s" and "thread_invariant s"
  shows "handler_invariant (sys_step Set_abort s)" and "token_invariant (sys_step Set_abort s)"
    and "thread_invariant (sys_step Set_abort s)"
proof -
  show "handler_invariant (sys_step Set_abort s)"
    by (rule handler_invariant_frame [OF assms(1)]) (simp_all add: Set_abort_step)
  show "token_invariant (sys_step Set_abort s)"
    by (rule token_invariant_frame [OF assms(2)]) (simp_all add: Set_abort_step)
  show "thread_invariant (sys_step Set_abort s)"
    by (rule thread_invariant_frame [OF assms(3)]) (simp add: Set_abort_step)
qed

lemma service_log_Suc:
  "service_log x (Suc n) =
     service_log x n @
       [Sem_wait x Acquired, SyslogPrint_DATA \<lparr>ev_thread = number x, ev_count = of_nat (Suc n)\<rparr>]"
  by (simp add: service_log_def)

lemma Run_cases:
  obtains (stay) "sys_step (Run x) s = s"
  | (check) "at (thr s x) = Loop_head"
      "sys_step (Run x) s = s\<lparr>thr := (thr s)(x := Service_check x (shared s) (thr s x))\<rparr>"
  | (take) "at (thr s x) = In_sem_wait" "0 < semS (shared s) x"
      "sys_step (Run x) s =
         s\<lparr>shared := (shared s)\<lparr>semS := (semS (shared s))(x := semS (shared s) x - 1)\<rparr>,
           thr := (thr s)(x := Service_body x Acquired (thr s x))\<rparr>"
proof (cases "handler s \<noteq> Idle \<and> host s = Service_thread x")
  case True
  then have "sys_step (Run x) s = s" by (simp add: sys_step_def)
  then show ?thesis by (rule stay)
next
  case False
  show ?thesis
  proof (cases "at (thr s x)")
    case Absent
    with False have "sys_step (Run x) s = s" by (auto simp add: sys_step_def)
    then show ?thesis by (rule stay)
  next
    case Loop_head
    with False have "sys_step (Run x) s =
        s\<lparr>thr := (thr s)(x := Service_check x (shared s) (thr s x))\<rparr>"
      by (auto simp add: sys_step_def)
    with Loop_head show ?thesis by (rule check)
  next
    case In_sem_wait
    show ?thesis
    proof (cases "0 < semS (shared s) x")
      case True
      with False In_sem_wait have "sys_step (Run x) s =
         s\<lparr>shared := (shared s)\<lparr>semS := (semS (shared s))(x := semS (shared s) x - 1)\<rparr>,
           thr := (thr s)(x := Service_body x Acquired (thr s x))\<rparr>"
        by (auto simp add: sys_step_def)
      with In_sem_wait True show ?thesis by (rule take)
    next
      case no: False
      with False In_sem_wait have "sys_step (Run x) s = s" by (auto simp add: sys_step_def)
      then show ?thesis by (rule stay)
    qed
  next
    case Exited
    with False have "sys_step (Run x) s = s" by (auto simp add: sys_step_def)
    then show ?thesis by (rule stay)
  qed
qed

lemma Service_check_thread:
  "taken y (Service_check x g t) = taken y t"
  "S_Cnt (Service_check x g t) = S_Cnt t"
  "at (Service_check x g t) = (if abortS g x = 0 then In_sem_wait else Exited)"
  "out (Service_check x g t) = out t @ (if abortS g x = 0 then [] else [Pthread_exit])"
  by (simp_all add: Service_check_def taken_def)

lemma Service_body_thread:
  "taken x (Service_body x Acquired t) = taken x t + 1"
  "S_Cnt (Service_body x r t) = S_Cnt t + 1"
  "at (Service_body x r t) = Loop_head"
  "out (Service_body x r t) =
     out t @ [Sem_wait x r, SyslogPrint_DATA \<lparr>ev_thread = number x, ev_count = S_Cnt t + 1\<rparr>]"
  by (simp_all add: Service_body_def taken_def Let_def)

lemma handler_invariant_Run:
  assumes "handler_invariant s"
  shows "handler_invariant (sys_step (Run x) s)"
proof (cases rule: Run_cases [of x s])
  case stay
  with assms show ?thesis by simp
next
  case check
  show ?thesis by (rule handler_invariant_frame [OF assms]) (simp_all add: check(2))
next
  case take
  show ?thesis by (rule handler_invariant_frame [OF assms]) (simp_all add: take(3))
qed

lemma token_invariant_Run:
  assumes "token_invariant s"
  shows "token_invariant (sys_step (Run x) s)"
proof (cases rule: Run_cases [of x s])
  case stay
  with assms show ?thesis by simp
next
  case check
  show ?thesis
    by (rule token_invariant_frame [OF assms]) (simp_all add: check(2) Service_check_thread)
next
  case take
  show ?thesis
    by (rule token_invariant_frame [OF assms])
      (use take(2) in \<open>simp_all add: take(3) Service_body_thread\<close>)
qed

lemma thread_invariant_Run:
  assumes "thread_invariant s"
  shows "thread_invariant (sys_step (Run x) s)"
proof (cases rule: Run_cases [of x s])
  case stay
  with assms show ?thesis by simp
next
  case check
  from assms check(1) have t: "out (thr s x) = service_log x (taken x (thr s x))"
    "S_Cnt (thr s x) = of_nat (taken x (thr s x))"
    by (simp_all add: thread_invariant_def)
  have "out (thr (sys_step (Run x) s) y) =
             (if at (thr (sys_step (Run x) s) y) = Absent then []
              else service_log y (taken y (thr (sys_step (Run x) s) y)) @
                   (if at (thr (sys_step (Run x) s) y) = Exited then [Pthread_exit] else [])) \<and>
           S_Cnt (thr (sys_step (Run x) s) y) = of_nat (taken y (thr (sys_step (Run x) s) y))"
    for y
  proof (cases "y = x")
    case True
    with t show ?thesis by (simp add: check(2) Service_check_thread)
  next
    case False
    with assms show ?thesis by (simp add: check(2) thread_invariant_def)
  qed
  then show ?thesis unfolding thread_invariant_def by blast
next
  case take
  from assms take(1) have t: "out (thr s x) = service_log x (taken x (thr s x))"
    "S_Cnt (thr s x) = of_nat (taken x (thr s x))"
    by (simp_all add: thread_invariant_def)
  have "out (thr (sys_step (Run x) s) y) =
             (if at (thr (sys_step (Run x) s) y) = Absent then []
              else service_log y (taken y (thr (sys_step (Run x) s) y)) @
                   (if at (thr (sys_step (Run x) s) y) = Exited then [Pthread_exit] else [])) \<and>
           S_Cnt (thr (sys_step (Run x) s) y) = of_nat (taken y (thr (sys_step (Run x) s) y))"
    for y
  proof (cases "y = x")
    case True
    with t show ?thesis by (simp add: take(3) Service_body_thread service_log_Suc)
  next
    case False
    with assms show ?thesis by (simp add: take(3) thread_invariant_def)
  qed
  then show ?thesis unfolding thread_invariant_def by blast
qed

lemma invariants_step:
  assumes "handler_invariant s \<and> token_invariant s \<and> thread_invariant s"
  shows "handler_invariant (sys_step c s) \<and> token_invariant (sys_step c s) \<and>
         thread_invariant (sys_step c s)"
proof (cases c)
  case (Tick w)
  with assms show ?thesis
    by (simp add: handler_invariant_Tick sequencer_invariants_Tick)
next
  case Handler
  from assms have "thread_invariant (sys_step Handler s)"
    by (simp add: thread_invariant_frame [of s] Handler_step)
  with assms Handler show ?thesis
    by (simp add: handler_invariant_Handler token_invariant_Handler)
next
  case Set_abort
  with assms show ?thesis by (simp add: invariants_Set_abort)
next
  case (Run x)
  with assms show ?thesis
    by (simp add: handler_invariant_Run token_invariant_Run thread_invariant_Run)
qed

lemma invariants_exec:
  assumes "handler_invariant s \<and> token_invariant s \<and> thread_invariant s"
  shows "handler_invariant (exec sch s) \<and> token_invariant (exec sch s) \<and>
         thread_invariant (exec sch s)"
  using assms
proof (induction sch arbitrary: s)
  case Nil
  then show ?case by simp
next
  case (Cons c sch)
  from Cons.IH [OF invariants_step [OF Cons.prems]] show ?case by simp
qed

lemma taken_Service_start: "taken x (Service_start y) = 0"
  by (simp add: taken_def Service_start_def)

lemma invariants_boot:
  assumes "glob st = running_globals"
  shows "handler_invariant (boot st) \<and> token_invariant (boot st) \<and> thread_invariant (boot st)"
proof -
  have "handler_invariant (boot st)"
    using assms running_globals_started(3)
    by (simp add: handler_invariant_def boot_def running_globals_def enters_termination_def
        forced_part_def posts_Nil)
  moreover have "token_invariant (boot st)"
    using assms
    by (simp add: token_invariant_def boot_def thread_of_def taken_def Service_start_def
        posts_Nil running_globals_def)
  moreover have "thread_invariant (boot st)"
    by (simp add: thread_invariant_def boot_def thread_of_def taken_def
        service_log_def Service_start_def)
  ultimately show ?thesis by simp
qed

lemma invariants_reached:
  assumes "snd (main e) = Inr st" and "timer_create_rc e = 0"
  shows "handler_invariant (exec sch (boot st))" and "token_invariant (exec sch (boot st))"
    and "thread_invariant (exec sch (boot st))"
  using invariants_exec [OF invariants_boot [OF main_hands_over [OF assms]], of sch]
  by simp_all

lemma events_service_log: "length (filter is_event (service_log x n)) = n"
  by (induction n) (simp_all add: service_log_Suc, simp add: service_log_def)

lemma thread_events:
  assumes "thread_invariant s"
  shows "events (thr s x) = taken x (thr s x)"
proof (cases "at (thr s x) = Absent")
  case True
  with assms have "out (thr s x) = []" by (simp add: thread_invariant_def)
  then show ?thesis by (simp add: events_def taken_def)
next
  case False
  with assms have "out (thr s x) = service_log x (taken x (thr s x)) @
      (if at (thr s x) = Exited then [Pthread_exit] else [])"
    by (simp add: thread_invariant_def)
  then have "events (thr s x) = length (filter is_event (service_log x (taken x (thr s x)) @
      (if at (thr s x) = Exited then [Pthread_exit] else [])))"
    by (simp add: events_def)
  then show ?thesis by (simp add: events_service_log)
qed


section \<open>Executions from the state main hands over\<close>

lemma boot_all_succeed: "boot (handed_over all_succeed) = started"
proof -
  have "thread_of (handed_over all_succeed) x = Service_start x" for x
    by (cases x) (simp_all add: thread_of_def handed_over_def all_succeed_def)
  then have "thread_of (handed_over all_succeed) = Service_start" by (rule ext)
  then show ?thesis
    by (simp add: boot_def started_def) (simp add: handed_over_def all_succeed_def)
qed

lemma all_succeed_reaches_join:
  "snd (main all_succeed) = Inr (handed_over all_succeed)" "timer_create_rc all_succeed = 0"
  by (rule main_reaches_join) (simp_all add: all_succeed_def)




lemmas run_simps = sys_step_def armed_def ten_msec_def zero_itimerspec_def zero_timespec_def
  sem_post_def posted_def SEM_VALUE_MAX_def timer_settime_def set_abortTest_def
  Service_check_def Service_body_def Service_start_def LCM_PERIOD_def TRUE_def FALSE_def Let_def
  word_le_nat_alt

lemma early_consumer_run:
  "handler (exec early_consumer started) = Idle"
  "\<not> armed (shared (exec early_consumer started))"
  "abortS (shared (exec early_consumer started)) S1 = TRUE"
  "semS (shared (exec early_consumer started)) S1 = 0"
  "thr (exec early_consumer started) S1 =
     \<lparr>at = In_sem_wait, S_Cnt = 2,
      out = [Printf ''S1 thread @ sec=%6.9lf'' [],
             Sem_wait S1 Acquired, SyslogPrint_DATA \<lparr>ev_thread = 1, ev_count = 1\<rparr>,
             Sem_wait S1 Acquired, SyslogPrint_DATA \<lparr>ev_thread = 1, ev_count = 2\<rparr>]\<rparr>"
  "seq_calls (exec early_consumer started) =
     [Sem_post S1, Sem_post S2, Sem_post S3] @
     shutdown_calls (running_globals\<lparr>abortTest := TRUE\<rparr>)"
  by (simp_all add: early_consumer_def started_def running_globals_def run_simps
      shutdown_calls_def thread_started_def)


text \<open>
  A service that is inside \<^verbatim>\<open>sem_wait\<close> with no token once the handler has disarmed the
  timer and returned stays there whatever happens: nothing posts to its semaphore any more.
\<close>

lemma never_woken:
  assumes "handler s = Idle" and "\<not> armed (shared s)" and "at (thr s x) = In_sem_wait"
    and "semS (shared s) x = 0"
  shows "thr (exec sch s) x = thr s x"
  using assms
proof (induction sch arbitrary: s)
  case Nil
  then show ?case by simp
next
  case (Cons c sch)
  let ?s = "sys_step c s"
  have "handler ?s = Idle \<and> \<not> armed (shared ?s) \<and> thr ?s x = thr s x \<and>
      semS (shared ?s) x = 0"
  proof (cases c)
    case (Tick w)
    with Cons.prems show ?thesis by (simp add: Tick_step)
  next
    case Handler
    with Cons.prems show ?thesis by (simp add: Handler_step)
  next
    case Set_abort
    with Cons.prems show ?thesis by (simp add: Set_abort_step armed_def)
  next
    case (Run y)
    show ?thesis
    proof (cases "y = x")
      case True
      with Cons.prems Run show ?thesis by (simp add: sys_step_def)
    next
      case False
      with Cons.prems show ?thesis unfolding Run
        by (cases rule: Run_cases [of y s]) (simp_all add: armed_def)
    qed
  qed
  with Cons.prems(3) have "handler ?s = Idle" "\<not> armed (shared ?s)"
    "at (thr ?s x) = In_sem_wait" "semS (shared ?s) x = 0" and t: "thr ?s x = thr s x"
    by simp_all
  from Cons.IH [OF this(1-4)] t show ?case by simp
qed

lemma early_consumer_never_woken:
  "at (thr (exec sch (exec early_consumer (boot (handed_over all_succeed)))) S1) = In_sem_wait"
proof -
  have "thr (exec sch (exec early_consumer started)) S1 = thr (exec early_consumer started) S1"
    by (rule never_woken) (simp_all add: early_consumer_run)
  then show ?thesis by (simp add: boot_all_succeed early_consumer_run(5))
qed

section \<open>The claims about the services\<close>



text \<open>
  C10. In every state of every execution from the state \<^verbatim>\<open>main\<close> hands over, with the
  handler taken apart into its steps, the services running beside it, and no expiration
  of the timer while the handler runs: the calls of a
  service are its first line and then, for each token it has taken, the return of
  \<^verbatim>\<open>sem_wait\<close> followed at once by the event record with the next count, and
  \<^verbatim>\<open>pthread_exit\<close> comes only after the last record; its counter and the number of its
  records are the number of tokens it has taken; the tokens taken and the tokens still in
  the semaphore are the posts of the modulo rule and the forced posts; the forced posts
  are none until the handler has passed line 496 for the service and one from then on. So
  a service that has emptied its semaphore after the forced post has made one record more
  than the modulo rule released.
\<close>

theorem every_token_counted_and_logged:
  assumes "snd (main e) = Inr st" and "timer_create_rc e = 0"
  shows "let s = exec sch (boot st); t = thr s x in
     out t =
       (if at t = Absent then []
        else service_log x (taken x t) @ (if at t = Exited then [Pthread_exit] else [])) \<and>
     S_Cnt t = of_nat (taken x t) \<and>
     events t = taken x t \<and>
     taken x t + semS (shared s) x =
       posts x (rule_part (seq_calls s)) + posts x (forced_part (seq_calls s)) \<and>
     posts x (forced_part (seq_calls s)) =
       (if armed (shared s) \<or> forced_pending (handler s) x then 0 else 1) \<and>
     (semS (shared s) x = 0 \<and> posts x (forced_part (seq_calls s)) = 1 \<longrightarrow>
        events t = posts x (rule_part (seq_calls s)) + 1)"
proof -
  let ?s = "exec sch (boot st)"
  let ?t = "thr ?s x"
  note inv = invariants_reached [OF assms, of sch]
  from inv(3) have a: "out ?t =
       (if at ?t = Absent then []
        else service_log x (taken x ?t) @ (if at ?t = Exited then [Pthread_exit] else []))"
    and b: "S_Cnt ?t = of_nat (taken x ?t)"
    by (simp_all add: thread_invariant_def)
  note c = thread_events [OF inv(3), of x]
  from inv(2) have "taken x ?t + semS (shared ?s) x = posts x (seq_calls ?s)"
    by (simp add: token_invariant_def)
  then have d: "taken x ?t + semS (shared ?s) x =
       posts x (rule_part (seq_calls ?s)) + posts x (forced_part (seq_calls ?s))"
    using posts_parts [of x "seq_calls ?s"] by simp
  from inv(1) have f: "posts x (forced_part (seq_calls ?s)) =
       (if armed (shared ?s) \<or> forced_pending (handler ?s) x then 0 else 1)"
    by (simp add: handler_invariant_def)
  from c d have g: "semS (shared ?s) x = 0 \<and> posts x (forced_part (seq_calls ?s)) = 1 \<longrightarrow>
        events ?t = posts x (rule_part (seq_calls ?s)) + 1"
    by simp
  from a b c d f g show ?thesis unfolding Let_def by blast
qed

theorem every_token_counted_and_logged_witness:
  "snd (main all_succeed) = Inr (handed_over all_succeed) \<and>
   timer_create_rc all_succeed = 0 \<and>
   at (thr (exec early_consumer (boot (handed_over all_succeed))) S1) = In_sem_wait \<and>
   out (thr (exec early_consumer (boot (handed_over all_succeed))) S1) = service_log S1 2 \<and>
   S_Cnt (thr (exec early_consumer (boot (handed_over all_succeed))) S1) = 2 \<and>
   taken S1 (thr (exec early_consumer (boot (handed_over all_succeed))) S1) = 2 \<and>
   semS (shared (exec early_consumer (boot (handed_over all_succeed)))) S1 = 0 \<and>
   posts S1 (rule_part (seq_calls (exec early_consumer (boot (handed_over all_succeed))))) = 1 \<and>
   posts S1 (forced_part (seq_calls (exec early_consumer (boot (handed_over all_succeed))))) = 1 \<and>
   events (thr (exec early_consumer (boot (handed_over all_succeed))) S1) = 2"
proof -
  let ?s = "exec early_consumer (boot (handed_over all_succeed))"
  note r = early_consumer_run [folded boot_all_succeed]
  have t: "taken S1 (thr ?s S1) = 2" "out (thr ?s S1) = service_log S1 2"
    by (simp_all add: r(5) taken_def service_log_def thread_started_def upt_rec)
  have p: "posts S1 (rule_part (seq_calls ?s)) = 1" "posts S1 (forced_part (seq_calls ?s)) = 1"
    by (simp_all add: r(6) rule_part_def forced_part_def shutdown_calls_def posts_def)
  from every_token_counted_and_logged [OF all_succeed_reaches_join, of early_consumer S1]
  have "semS (shared ?s) S1 = 0 \<and> posts S1 (forced_part (seq_calls ?s)) = 1 \<longrightarrow>
      events (thr ?s S1) = posts S1 (rule_part (seq_calls ?s)) + 1"
    unfolding Let_def by blast
  with r(4) p have "events (thr ?s S1) = 2" by simp
  with t p r all_succeed_reaches_join show ?thesis by simp
qed

end
